theory Spec2Isabelle
  imports Main
begin

section \<open>Python strings\<close>

text \<open>
  A Python \<open>str\<close> is a sequence of Unicode code points, so a text is a list of natural
  numbers; \<open>u ''abc''\<close> writes an ASCII literal. The glyphs the source names beyond
  ASCII are the multiplication sign U+00D7, the degree sign U+00B0 and the five bullets
  U+2022, U+25CF, U+25CB, U+25AA, U+25AB.

  The character tables of the Python runtime (\<open>isalnum\<close>, \<open>isupper\<close>, \<open>lower\<close>,
  \<open>upper\<close>, \<open>title\<close>, the classes \<open>\d\<close> and \<open>\w\<close>) are given here on the ASCII
  range: a code point from 128 on is an uncased symbol that is neither a letter nor a
  digit, which is what the seven glyphs above are in Unicode. White space is the full
  Unicode set that \<open>str.isspace\<close>, \<open>str.split\<close>, \<open>str.strip\<close> and \<open>\s\<close> use.

  So the functions below compute what Python computes on a text of ASCII characters and
  these glyphs. On other texts Python can differ: its \<open>\d\<close> and \<open>str.isdigit\<close> take
  every decimal digit of Unicode, its \<open>\w\<close>, \<open>\b\<close> and \<open>str.isalnum\<close> every letter,
  \<open>str.lower\<close> maps U+212A to \<open>k\<close> and U+0130 to two code points, and under
  \<open>re.IGNORECASE\<close> the letter \<open>s\<close> also matches U+017F, \<open>i\<close> also U+0130 and U+0131,
  \<open>k\<close> also U+212A. The properties proved for every text follow from the way the
  loops, the matcher and the formatters are put together, and are stated through the
  matcher's own tests of a character, so that they do not depend on which characters a
  table holds.
\<close>

type_synonym uchar = nat
type_synonym ustr = "uchar list"

definition u :: "string \<Rightarrow> ustr" where
  "u s = map of_char s"

definition isdigit1 :: "uchar \<Rightarrow> bool" where
  "isdigit1 c = (48 \<le> c \<and> c \<le> 57)"

definition isupper1 :: "uchar \<Rightarrow> bool" where
  "isupper1 c = (65 \<le> c \<and> c \<le> 90)"

definition islower1 :: "uchar \<Rightarrow> bool" where
  "islower1 c = (97 \<le> c \<and> c \<le> 122)"

definition isalnum1 :: "uchar \<Rightarrow> bool" where
  "isalnum1 c = (isdigit1 c \<or> isupper1 c \<or> islower1 c)"

definition isspace1 :: "uchar \<Rightarrow> bool" where
  "isspace1 c = ((9 \<le> c \<and> c \<le> 13) \<or> (28 \<le> c \<and> c \<le> 32) \<or> c = 133 \<or> c = 160
     \<or> c = 5760 \<or> (8192 \<le> c \<and> c \<le> 8202) \<or> c = 8232 \<or> c = 8233 \<or> c = 8239
     \<or> c = 8287 \<or> c = 12288)"

text \<open>The class \<open>\w\<close> of the \<open>re\<close> module: alphanumerics and the underscore.\<close>

definition isword1 :: "uchar \<Rightarrow> bool" where
  "isword1 c = (isalnum1 c \<or> c = 95)"

definition lower1 :: "uchar \<Rightarrow> uchar" where
  "lower1 c = (if isupper1 c then c + 32 else c)"

definition upper1 :: "uchar \<Rightarrow> uchar" where
  "upper1 c = (if islower1 c then c - 32 else c)"

definition lower :: "ustr \<Rightarrow> ustr" where
  "lower s = map lower1 s"

definition upper :: "ustr \<Rightarrow> ustr" where
  "upper s = map upper1 s"

text \<open>
  \<open>str.title\<close>: a cased character is upper-cased when the character before it is not
  cased, and lower-cased otherwise.
\<close>

fun title_from :: "bool \<Rightarrow> ustr \<Rightarrow> ustr" where
  "title_from prev_cased [] = []"
| "title_from prev_cased (c # cs) =
     (if prev_cased then lower1 c else upper1 c) # title_from (isupper1 c \<or> islower1 c) cs"

definition title :: "ustr \<Rightarrow> ustr" where
  "title s = title_from False s"

text \<open>\<open>s.rstrip(chars)\<close>, \<open>s.rstrip()\<close>, \<open>s.strip()\<close>.\<close>

definition rstrip_chars :: "(uchar \<Rightarrow> bool) \<Rightarrow> ustr \<Rightarrow> ustr" where
  "rstrip_chars p s = rev (dropWhile p (rev s))"

definition strip :: "ustr \<Rightarrow> ustr" where
  "strip s = rstrip_chars isspace1 (dropWhile isspace1 s)"

text \<open>
  \<open>s.split()\<close>: the maximal runs of characters that are not white space. \<open>cur\<close> is the
  word being read, in reverse.
\<close>

fun split_from :: "ustr \<Rightarrow> ustr \<Rightarrow> ustr list" where
  "split_from cur [] = (if cur = [] then [] else [rev cur])"
| "split_from cur (c # cs) =
     (if isspace1 c then (if cur = [] then split_from [] cs else rev cur # split_from [] cs)
      else split_from (c # cur) cs)"

definition split :: "ustr \<Rightarrow> ustr list" where
  "split s = split_from [] s"

text \<open>\<open>' '.join(ws)\<close>.\<close>

fun join_space :: "ustr list \<Rightarrow> ustr" where
  "join_space [] = []"
| "join_space [w] = w"
| "join_space (w # ws) = w @ 32 # join_space ws"

text \<open>\<open>s.isdigit()\<close> is false on the empty string; \<open>s.count(c)\<close>; \<open>s.replace(c, '')\<close>.\<close>

definition isdigit :: "ustr \<Rightarrow> bool" where
  "isdigit s = (s \<noteq> [] \<and> list_all isdigit1 s)"

definition count :: "ustr \<Rightarrow> uchar \<Rightarrow> nat" where
  "count s c = length (filter (\<lambda>d. d = c) s)"

definition remove_char :: "uchar \<Rightarrow> ustr \<Rightarrow> ustr" where
  "remove_char c s = filter (\<lambda>d. d \<noteq> c) s"

text \<open>
  A slice \<open>xs[:k]\<close>: the first \<open>k\<close> elements, and for a negative \<open>k\<close> all but the last
  \<open>-k\<close>.
\<close>

definition slice_to :: "int \<Rightarrow> 'a list \<Rightarrow> 'a list" where
  "slice_to k xs = (if 0 \<le> k then take (nat k) xs else take (length xs - nat (- k)) xs)"

section \<open>The exceptions the code can raise\<close>

datatype error = IndexError | AttributeError | ZeroDivisionError

section \<open>Regular expressions of the \<open>re\<close> module\<close>

text \<open>
  The constructs the patterns of the source use. A character class is a set of
  characters (\<open>Pos\<close>) or the complement of one (\<open>Neg\<close>, as in \<open>[^.]\<close>).
  \<open>Many lo hi greedy p\<close> repeats a character class (\<open>\d+\<close>, \<open>\s*\<close>, \<open>[a-z\s]{3,30}?\<close>); \<open>Opt r\<close> is the greedy \<open>r?\<close>;
  \<open>Grp n r\<close> is the capturing group number \<open>n\<close>; \<open>WordB\<close> is \<open>\b\<close>, \<open>Eos\<close> is \<open>$\<close>
  and \<open>NegLook r\<close> is \<open>(?!r)\<close>.
\<close>

datatype cclass = Pos "uchar \<Rightarrow> bool" | Neg "uchar \<Rightarrow> bool"

datatype rx =
    Lit ustr
  | Cls cclass
  | Seq rx rx
  | Alt rx rx
  | Opt rx
  | Many nat "nat option" bool cclass
  | Grp nat rx
  | WordB
  | Eos
  | NegLook rx

text \<open>
  A state of the matcher: the character before the current position (none at the start
  of the text), the text from the current position on, and the groups captured so far.
\<close>

type_synonym caps = "nat \<Rightarrow> ustr option"
type_synonym mstate = "uchar option \<times> ustr \<times> caps"

text \<open>Under \<open>re.IGNORECASE\<close> a character matches when one of its case variants does.\<close>

definition chr_eq :: "bool \<Rightarrow> uchar \<Rightarrow> uchar \<Rightarrow> bool" where
  "chr_eq ic a c = (a = c \<or> (ic \<and> lower1 a = lower1 c))"

definition in_set :: "bool \<Rightarrow> (uchar \<Rightarrow> bool) \<Rightarrow> uchar \<Rightarrow> bool" where
  "in_set ic p c = (p c \<or> (ic \<and> (p (lower1 c) \<or> p (upper1 c))))"

fun cls_ok :: "bool \<Rightarrow> cclass \<Rightarrow> uchar \<Rightarrow> bool" where
  "cls_ok ic (Pos p) c = in_set ic p c"
| "cls_ok ic (Neg p) c = (\<not> in_set ic p c)"

fun lit_match :: "bool \<Rightarrow> ustr \<Rightarrow> mstate \<Rightarrow> mstate list" where
  "lit_match ic [] s = [s]"
| "lit_match ic (a # as) (pv, [], cs) = []"
| "lit_match ic (a # as) (pv, c # t, cs) =
     (if chr_eq ic a c then lit_match ic as (Some c, t, cs) else [])"

text \<open>
  The states after 0, 1, 2, ... characters of the class, shortest first, up to the
  bound \<open>hi\<close>; \<open>n\<close> counts the characters taken so far.
\<close>

fun runs :: "bool \<Rightarrow> cclass \<Rightarrow> nat \<Rightarrow> nat option \<Rightarrow> mstate \<Rightarrow> mstate list" where
  "runs ic p n hi (pv, [], cs) = [(pv, [], cs)]"
| "runs ic p n hi (pv, c # t, cs) =
     (pv, c # t, cs) #
     (if cls_ok ic p c \<and> (case hi of None \<Rightarrow> True | Some h \<Rightarrow> n < h)
      then runs ic p (Suc n) hi (Some c, t, cs) else [])"

definition at_boundary :: "uchar option \<Rightarrow> ustr \<Rightarrow> bool" where
  "at_boundary pv t =
     ((case pv of None \<Rightarrow> False | Some c \<Rightarrow> isword1 c)
      \<noteq> (case t of [] \<Rightarrow> False | c # _ \<Rightarrow> isword1 c))"

text \<open>
  The backtracking matcher, as the list of the states it can end in, in the order in
  which backtracking reaches them: the head is the match \<open>re\<close> returns, the rest is
  what it would try were the continuation to fail.
\<close>

fun ms :: "bool \<Rightarrow> rx \<Rightarrow> mstate \<Rightarrow> mstate list" where
  "ms ic (Lit w) s = lit_match ic w s"
| "ms ic (Cls p) (pv, t, cs) =
     (case t of [] \<Rightarrow> [] | c # t' \<Rightarrow> if cls_ok ic p c then [(Some c, t', cs)] else [])"
| "ms ic (Seq a b) s = concat (map (ms ic b) (ms ic a s))"
| "ms ic (Alt a b) s = ms ic a s @ ms ic b s"
| "ms ic (Opt a) s = ms ic a s @ [s]"
| "ms ic (Many lo hi greedy p) s =
     (let xs = drop lo (runs ic p 0 hi s) in if greedy then rev xs else xs)"
| "ms ic (Grp n a) (pv, t, cs) =
     map (\<lambda>(pv', t', cs'). (pv', t', cs'(n \<mapsto> take (length t - length t') t)))
       (ms ic a (pv, t, cs))"
| "ms ic WordB (pv, t, cs) = (if at_boundary pv t then [(pv, t, cs)] else [])"
| "ms ic Eos (pv, t, cs) = (if t = [] \<or> t = [10] then [(pv, t, cs)] else [])"
| "ms ic (NegLook a) s = (if ms ic a s = [] then [s] else [])"

text \<open>The number of capturing groups of a pattern.\<close>

fun ngroups :: "rx \<Rightarrow> nat" where
  "ngroups (Seq a b) = max (ngroups a) (ngroups b)"
| "ngroups (Alt a b) = max (ngroups a) (ngroups b)"
| "ngroups (Opt a) = ngroups a"
| "ngroups (Grp n a) = max n (ngroups a)"
| "ngroups (NegLook a) = ngroups a"
| "ngroups _ = 0"

text \<open>
  A match object: the matched text (group 0), the groups, and their number.
  \<open>m_rest\<close> is the text after the match.
\<close>

record match =
  m_whole :: ustr
  m_caps :: caps
  m_ngroups :: nat
  m_rest :: ustr

text \<open>\<open>m.group(n)\<close> raises IndexError for a group the pattern does not have.\<close>

definition group :: "match \<Rightarrow> nat \<Rightarrow> error + ustr option" where
  "group m n = (if n = 0 then Inr (Some (m_whole m))
                else if n \<le> m_ngroups m then Inr (m_caps m n) else Inl IndexError)"

definition groups :: "match \<Rightarrow> ustr option list" where
  "groups m = map (m_caps m) [1 ..< Suc (m_ngroups m)]"

text \<open>A match that starts at the current position.\<close>

definition match_here :: "bool \<Rightarrow> rx \<Rightarrow> uchar option \<Rightarrow> ustr \<Rightarrow> match option" where
  "match_here ic r pv t =
     (case ms ic r (pv, t, \<lambda>_. None) of
        [] \<Rightarrow> None
      | (pv', t', cs) # _ \<Rightarrow>
          Some \<lparr>m_whole = take (length t - length t') t, m_caps = cs,
                m_ngroups = ngroups r, m_rest = t'\<rparr>)"

text \<open>\<open>re.search\<close>: the first start position, from the left, at which the pattern matches.\<close>

fun search_from :: "bool \<Rightarrow> rx \<Rightarrow> uchar option \<Rightarrow> ustr \<Rightarrow> match option" where
  "search_from ic r pv [] = match_here ic r pv []"
| "search_from ic r pv (c # t) =
     (case match_here ic r pv (c # t) of
        Some m \<Rightarrow> Some m
      | None \<Rightarrow> search_from ic r (Some c) t)"

definition re_search :: "rx \<Rightarrow> ustr \<Rightarrow> bool \<Rightarrow> match option" where
  "re_search r text ic = search_from ic r None text"

text \<open>
  \<open>re.sub(r, '', text)\<close>: the text without the matches of the pattern, found from the
  left and not overlapping. \<open>skip\<close> counts the characters of the last match that are
  still to be passed over. An empty match is replaced by the empty string, which
  changes nothing.
\<close>

fun sub_from :: "bool \<Rightarrow> rx \<Rightarrow> uchar option \<Rightarrow> nat \<Rightarrow> ustr \<Rightarrow> ustr" where
  "sub_from ic r pv skip [] = []"
| "sub_from ic r pv skip (c # t) =
     (if 0 < skip then sub_from ic r (Some c) (skip - 1) t
      else case match_here ic r pv (c # t) of
             None \<Rightarrow> c # sub_from ic r (Some c) 0 t
           | Some m \<Rightarrow>
               (if m_whole m = [] then c # sub_from ic r (Some c) 0 t
                else sub_from ic r (Some c) (length (m_whole m) - 1) t))"

definition re_sub_empty :: "rx \<Rightarrow> ustr \<Rightarrow> ustr" where
  "re_sub_empty r text = sub_from False r None 0 text"

text \<open>
  \<open>re.findall\<close> for a pattern with one group: the text of group 1 of every match, from
  the left and not overlapping (the empty string for a group that took no part). The
  search goes on where the last match ended; no pattern of the source matches the empty
  string.
\<close>

fun findall_from :: "bool \<Rightarrow> rx \<Rightarrow> uchar option \<Rightarrow> nat \<Rightarrow> ustr \<Rightarrow> ustr list" where
  "findall_from ic r pv skip [] =
     (if 0 < skip then []
      else case match_here ic r pv [] of
             None \<Rightarrow> []
           | Some m \<Rightarrow> [case m_caps m 1 of None \<Rightarrow> [] | Some g \<Rightarrow> g])"
| "findall_from ic r pv skip (c # t) =
     (if 0 < skip then findall_from ic r (Some c) (skip - 1) t
      else case match_here ic r pv (c # t) of
             None \<Rightarrow> findall_from ic r (Some c) 0 t
           | Some m \<Rightarrow>
               (case m_caps m 1 of None \<Rightarrow> [] | Some g \<Rightarrow> g)
               # findall_from ic r (Some c) (length (m_whole m) - 1) t)"

definition re_findall :: "rx \<Rightarrow> ustr \<Rightarrow> bool \<Rightarrow> ustr list" where
  "re_findall r text ic = findall_from ic r None 0 text"

subsection \<open>Writing patterns\<close>

definition lit :: "string \<Rightarrow> rx" where
  "lit s = Lit (u s)"

fun seqs :: "rx list \<Rightarrow> rx" where
  "seqs [] = Lit []"
| "seqs [r] = r"
| "seqs (r # rs) = Seq r (seqs rs)"

fun alts :: "rx list \<Rightarrow> rx" where
  "alts [] = Cls (Pos (\<lambda>_. False))"
| "alts [r] = r"
| "alts (r # rs) = Alt r (alts rs)"

definition one_of :: "ustr \<Rightarrow> uchar \<Rightarrow> bool" where
  "one_of s c = (c \<in> set s)"

text \<open>\<open>\s*\<close>, \<open>\s+\<close>, \<open>\d+\<close>, and the number \<open>(\d+\.?\d*)\<close> as group \<open>n\<close>.\<close>

definition ws :: rx where
  "ws = Many 0 None True (Pos isspace1)"

definition ws1 :: rx where
  "ws1 = Many 1 None True (Pos isspace1)"

definition digits :: rx where
  "digits = Many 1 None True (Pos isdigit1)"

definition num :: "nat \<Rightarrow> rx" where
  "num n = Grp n (seqs [digits, Opt (lit ''.''), Many 0 None True (Pos isdigit1)])"

text \<open>\<open>words?\<close>: a word with an optional last letter \<open>s\<close>.\<close>

definition opt_s :: "string \<Rightarrow> rx" where
  "opt_s w = Seq (lit w) (Opt (lit ''s''))"

text \<open>
  The sets of the classes \<open>["\']\<close>, \<open>[xX\<times>]\<close>, \<open>[a-z\s]\<close>, of the bullet glyphs, and
  \<open>.\<close>, any character but a newline.
\<close>

definition quote :: "uchar \<Rightarrow> bool" where
  "quote c = (c = 34 \<or> c = 39)"

definition xsep :: "uchar \<Rightarrow> bool" where
  "xsep c = (c = 120 \<or> c = 88 \<or> c = 215)"

definition az_space :: "uchar \<Rightarrow> bool" where
  "az_space c = (islower1 c \<or> isspace1 c)"

definition bullet :: "uchar \<Rightarrow> bool" where
  "bullet c = (c = 8226 \<or> c = 9679 \<or> c = 9675 \<or> c = 9642 \<or> c = 9643)"

definition dot_any :: cclass where
  "dot_any = Neg (\<lambda>c. c = 10)"

section \<open>Formatters\<close>

definition bind_e :: "error + 'a \<Rightarrow> ('a \<Rightarrow> error + 'b) \<Rightarrow> error + 'b" where
  "bind_e x f = (case x of Inl e \<Rightarrow> Inl e | Inr a \<Rightarrow> f a)"

text \<open>A group inside an f-string: \<open>None\<close> is printed as the word None.\<close>

definition fstr :: "ustr option \<Rightarrow> ustr" where
  "fstr g = (case g of None \<Rightarrow> u ''None'' | Some s \<Rightarrow> s)"

text \<open>A method call on a group raises AttributeError when the group is \<open>None\<close>.\<close>

definition the_str :: "ustr option \<Rightarrow> error + ustr" where
  "the_str g = (case g of None \<Rightarrow> Inl AttributeError | Some s \<Rightarrow> Inr s)"

text \<open>The truth value of a group: it took part in the match and is not empty.\<close>

definition truthy :: "ustr option \<Rightarrow> bool" where
  "truthy g = (case g of None \<Rightarrow> False | Some s \<Rightarrow> s \<noteq> [])"

text \<open>\<open>f"{m.group(1)} {m.group(2)}"\<close>\<close>

definition format_pair :: "match \<Rightarrow> error + ustr" where
  "format_pair m =
     bind_e (group m 1) (\<lambda>g1. bind_e (group m 2) (\<lambda>g2. Inr (fstr g1 @ u '' '' @ fstr g2)))"

text \<open>\<open>f"{m.group(1)} word"\<close>\<close>

definition format_with :: "string \<Rightarrow> match \<Rightarrow> error + ustr" where
  "format_with w m = bind_e (group m 1) (\<lambda>g1. Inr (fstr g1 @ u '' '' @ u w))"

definition format_dimensions :: "match \<Rightarrow> error + ustr" where
  "format_dimensions m =
     (case map the (filter (\<lambda>g. truthy g \<and> isdigit (remove_char 46 (the g))) (groups m)) of
        a # b # c # _ \<Rightarrow>
          bind_e (if 4 \<le> length (groups m)
                  then bind_e (group m 4)
                         (\<lambda>g4. if truthy g4 then group m 4 else Inr (Some (u ''inches'')))
                  else Inr (Some (u ''inches'')))
            (\<lambda>unit0.
               let unit = (if unit0 = Some [34] then Some (u ''inches'') else unit0)
               in Inr (a @ u '' x '' @ b @ u '' x '' @ c @ u '' '' @ fstr unit))
      | [a, b] \<Rightarrow> Inr (a @ u '' x '' @ b)
      | _ \<Rightarrow> Inr [])"

text \<open>The pattern \<open>\b(with|and|for|the|a|an)\b.*\<close> of \<open>_clean_material\<close>.\<close>

definition filler_rx :: rx where
  "filler_rx = seqs [WordB,
     Grp 1 (alts [lit ''with'', lit ''and'', lit ''for'', lit ''the'', lit ''a'', lit ''an'']),
     WordB, Many 0 None True dot_any]"

definition clean_material :: "ustr option \<Rightarrow> error + ustr" where
  "clean_material material0 =
     bind_e (the_str material0) (\<lambda>material1.
       let material2 = lower (strip material1);
           material = strip (re_sub_empty filler_rx material2)
       in if 3 < length material \<and> length material < 30 then Inr (title material) else Inr [])"

text \<open>\<open>m.group(1).title()\<close> and \<open>m.group(1).strip().title()\<close>\<close>

definition format_title :: "match \<Rightarrow> error + ustr" where
  "format_title m = bind_e (group m 1) (\<lambda>g. bind_e (the_str g) (\<lambda>s. Inr (title s)))"

definition format_strip_title :: "match \<Rightarrow> error + ustr" where
  "format_strip_title m =
     bind_e (group m 1) (\<lambda>g. bind_e (the_str g) (\<lambda>s. Inr (title (strip s))))"

text \<open>\<open>f"{m.group(1)}\<degree> {m.group(2).upper() if m.group(2) else 'F'}"\<close>\<close>

definition format_temperature :: "match \<Rightarrow> error + ustr" where
  "format_temperature m =
     bind_e (group m 1) (\<lambda>g1.
       bind_e (bind_e (group m 2) (\<lambda>c.
                 if truthy c then bind_e (group m 2) (\<lambda>g2. bind_e (the_str g2) (\<lambda>s. Inr (upper s)))
                 else Inr (u ''F'')))
         (\<lambda>unit. Inr (fstr g1 @ [176, 32] @ unit)))"

section \<open>The validator\<close>

text \<open>
  The ratio of special characters is a quotient of two integers, the second at most
  \<open>max_length\<close>, which is 100 in every call of the source, compared with the constant
  0.3: \<open>k / n > 0.3\<close> holds of the floating point numbers exactly when
  \<open>10 * k > 3 * n\<close> holds of the integers.
\<close>

definition is_valid_value :: "ustr \<Rightarrow> int \<Rightarrow> error + bool" where
  "is_valid_value value0 max_length =
     (if value0 = [] \<or> strip value0 = [] then Inr False
      else let v = strip value0 in
        if int (length v) > max_length then Inr False
        else if length v = 0 then Inl ZeroDivisionError
        else if 10 * length (filter (\<lambda>c. \<not> isalnum1 c \<and> c \<noteq> 32) v) > 3 * length v
          then Inr False
        else if count v 44 > 5 \<or> count v 46 > 5 then Inr False
        else Inr True)"

section \<open>The pattern catalogue\<close>

type_synonym rule = "rx \<times> (match \<Rightarrow> error + ustr)"

definition dimensions_rx1 :: rx where
  "dimensions_rx1 = seqs [num 1, ws, Opt (Cls (Pos quote)), ws, Cls (Pos xsep), ws,
     num 2, ws, Opt (Cls (Pos quote)), ws, Cls (Pos xsep), ws,
     num 3, ws, Opt (Cls (Pos quote)), ws,
     Opt (Grp 4 (alts [opt_s ''inche'', lit ''in'', lit ''cm'', lit ''mm'', Lit [34]]))]"

definition dimensions_rx2 :: rx where
  "dimensions_rx2 = seqs [alts [opt_s ''dimension'', lit ''size''], Opt (lit '':''), ws,
     num 1, ws, Cls (Pos xsep), ws, num 2, ws,
     Opt (seqs [Cls (Pos xsep), ws, num 3])]"

definition weight_rx :: rx where
  "weight_rx = seqs [num 1, ws,
     Grp 2 (alts [opt_s ''lb'', opt_s ''pound'', lit ''kg'', opt_s ''kilogram'']), WordB]"

definition capacity_rx1 :: rx where
  "capacity_rx1 = seqs [Opt (seqs [lit ''capacity'', Opt (lit '':''), ws]), num 1, ws,
     Opt (seqs [lit ''-'', ws]),
     Grp 2 (alts [lit ''cup'', lit ''cups'', lit ''oz'', opt_s ''ounce'', lit ''ml'',
       opt_s ''milliliter'', lit ''liter'', opt_s ''liter'', lit ''l'', lit ''gallon'',
       opt_s ''gallon'', lit ''qt'', opt_s ''quart'']), WordB]"

definition capacity_rx2 :: rx where
  "capacity_rx2 = seqs [alts [lit ''up to'', lit ''upto''], ws1, Grp 1 digits, ws1,
     Grp 2 (alts [lit ''cup'', lit ''cups'']), WordB]"

definition power_rx :: rx where
  "power_rx = seqs [Grp 1 digits, ws, Grp 2 (alts [lit ''watt'', lit ''watts'', lit ''w'']),
     WordB, NegLook (seqs [ws, lit ''max''])]"

definition voltage_rx :: rx where
  "voltage_rx = seqs [Grp 1 digits, ws, Grp 2 (alts [lit ''volt'', lit ''volts'', lit ''v'']),
     WordB]"

definition material_rx1 :: rx where
  "material_rx1 = seqs [alts [seqs [lit ''made '', alts [lit ''of'', lit ''from'']],
                              seqs [lit ''material'', Opt (lit '':'')]],
     ws1, Grp 1 (Many 3 (Some 30) False (Pos az_space)),
     alts [lit ''.'', lit '','', Eos, seqs [ws1, alts [lit ''with'', lit ''and'', lit ''for'']]]]"

definition material_rx2 :: rx where
  "material_rx2 = seqs [WordB,
     Grp 1 (alts [seqs [lit ''stainless'', ws1, lit ''steel''],
                  seqs [lit ''carbon'', ws1, lit ''steel''], lit ''aluminum'', lit ''plastic'',
                  lit ''glass'', lit ''ceramic'', lit ''wood'', lit ''silicone'', lit ''rubber'']),
     WordB]"

definition color_rx :: rx where
  "color_rx = seqs [alts [lit ''color'', lit ''colour''], Opt (lit '':''), ws1,
     Grp 1 (Many 3 (Some 20) False (Pos az_space)), alts [lit ''.'', lit '','', Eos]]"

definition temperature_rx :: rx where
  "temperature_rx = seqs [alts [lit ''up to'', seqs [lit ''max'', Opt (lit ''imum'')]], ws1,
     Grp 1 digits, ws, Opt (alts [opt_s ''degree'', Lit [176]]), ws,
     Opt (Grp 2 (alts [lit ''f'', lit ''fahrenheit'', lit ''c'', lit ''celsius'']))]"

definition settings_rx :: rx where
  "settings_rx = seqs [Grp 1 digits, ws1, Opt (seqs [lit ''precision'', ws1]),
     alts [lit ''speed'', lit ''heat'', lit ''temperature''], ws1, opt_s ''setting'']"

definition pieces_rx :: rx where
  "pieces_rx = seqs [Grp 1 digits, ws, Opt (seqs [lit ''-'', ws]), lit ''piece'']"

text \<open>\<open>self.patterns\<close>, in the order of the dictionary literal.\<close>

definition patterns :: "(string \<times> rule list) list" where
  "patterns =
    [(''Dimensions'', [(dimensions_rx1, format_dimensions), (dimensions_rx2, format_dimensions)]),
     (''Weight'', [(weight_rx, format_pair)]),
     (''Capacity'', [(capacity_rx1, format_pair), (capacity_rx2, format_pair)]),
     (''Power'', [(power_rx, format_pair)]),
     (''Voltage'', [(voltage_rx, format_pair)]),
     (''Material'', [(material_rx1, \<lambda>m. bind_e (group m 1) clean_material),
                     (material_rx2, format_title)]),
     (''Color'', [(color_rx, format_strip_title)]),
     (''Temperature Range'', [(temperature_rx, format_temperature)]),
     (''Settings'', [(settings_rx, format_with ''settings'')]),
     (''Pieces'', [(pieces_rx, format_with ''pieces'')])]"

section \<open>Ordered dictionaries\<close>

text \<open>
  A \<open>dict\<close> keeps its keys in the order of their first insertion; storing under a key
  that is present replaces the value in place.
\<close>

type_synonym specs = "(string \<times> ustr) list"

fun dict_set :: "specs \<Rightarrow> string \<Rightarrow> ustr \<Rightarrow> specs" where
  "dict_set [] k v = [(k, v)]"
| "dict_set ((k', v') # d) k v = (if k' = k then (k, v) # d else (k', v') # dict_set d k v)"

definition dict_has :: "specs \<Rightarrow> string \<Rightarrow> bool" where
  "dict_has d k = (k \<in> fst ` set d)"

definition dict_get :: "specs \<Rightarrow> string \<Rightarrow> ustr option" where
  "dict_get d k = map_of d k"

section \<open>The pattern pass\<close>

text \<open>
  The inner loop of \<open>extract_specs_from_text\<close> over the rules of one label: the value
  of the first rule that matches and whose formatter gives a non-empty valid value. A
  formatter or validator that raises is caught by the \<open>except\<close> clause and the loop
  goes on with the next rule.
\<close>

fun try_rules :: "rule list \<Rightarrow> ustr \<Rightarrow> ustr option" where
  "try_rules [] text_lower = None"
| "try_rules ((pattern, formatter) # rules) text_lower =
     (case re_search pattern text_lower True of
        None \<Rightarrow> try_rules rules text_lower
      | Some m \<Rightarrow>
          (case bind_e (formatter m)
                  (\<lambda>v. if v \<noteq> [] then bind_e (is_valid_value v 100) (\<lambda>ok. Inr (ok, v))
                       else Inr (False, v)) of
             Inl e \<Rightarrow> try_rules rules text_lower
           | Inr (ok, v) \<Rightarrow> if ok then Some v else try_rules rules text_lower))"

text \<open>The outer loop over the labels, which stops when \<open>max_specs\<close> labels are set.\<close>

fun extract_loop :: "(string \<times> rule list) list \<Rightarrow> ustr \<Rightarrow> int \<Rightarrow> specs \<Rightarrow> specs" where
  "extract_loop [] text_lower max_specs specs = specs"
| "extract_loop ((spec_name, rules) # rest) text_lower max_specs specs =
     (if int (length specs) \<ge> max_specs then specs
      else extract_loop rest text_lower max_specs
             (case try_rules rules text_lower of
                None \<Rightarrow> specs
              | Some v \<Rightarrow> dict_set specs spec_name v))"

definition extract_specs_from_text :: "ustr \<Rightarrow> int \<Rightarrow> specs" where
  "extract_specs_from_text text max_specs = extract_loop patterns (lower text) max_specs []"

section \<open>The feature phrases\<close>

definition bullet_rx :: rx where
  "bullet_rx = seqs [Cls (Pos bullet), ws,
     Grp 1 (Many 10 (Some 80) True (Neg (\<lambda>c. bullet c \<or> c = 10)))]"

definition keyword_rx :: "string \<Rightarrow> rx" where
  "keyword_rx w = seqs [lit w, Opt (lit '':''), ws1,
     Grp 1 (Many 15 (Some 80) True (Neg (\<lambda>c. c = 46))), lit ''.'']"

definition feature_keywords :: "(rx \<times> string) list" where
  "feature_keywords = [(keyword_rx ''featuring'', ''Feature''),
                       (keyword_rx ''includes'', ''Included''),
                       (keyword_rx ''comes with'', ''Included'')]"

text \<open>
  The loop over the bullets: a bullet is kept when it is longer than 10 and shorter
  than 80 characters and valid. The validator is called outside any \<open>try\<close>.
\<close>

fun bullet_loop :: "ustr list \<Rightarrow> (string \<times> ustr) list \<Rightarrow> error + (string \<times> ustr) list" where
  "bullet_loop [] features = Inr features"
| "bullet_loop (b # bs) features =
     (let feature = rstrip_chars (one_of (u ''.,'')) (strip b) in
      bind_e (if 10 < length feature \<and> length feature < 80
              then is_valid_value feature 100 else Inr False)
        (\<lambda>ok. bullet_loop bs (if ok then features @ [(''Feature'', feature)] else features)))"

text \<open>The inner loop over the matches of one keyword pattern.\<close>

fun match_loop :: "string \<Rightarrow> ustr list \<Rightarrow> (string \<times> ustr) list \<Rightarrow> error + (string \<times> ustr) list" where
  "match_loop label [] features = Inr features"
| "match_loop label (m # matches) features =
     (let feature = rstrip_chars (one_of (u '','')) (strip m) in
      bind_e (if 15 < length feature \<and> length feature < 80
              then is_valid_value feature 100 else Inr False)
        (\<lambda>ok. match_loop label matches (if ok then features @ [(label, feature)] else features)))"

text \<open>
  The loop over the keyword patterns; the slice of the matches is taken with the
  number of features found when the pattern is reached.
\<close>

fun keyword_loop :: "(rx \<times> string) list \<Rightarrow> ustr \<Rightarrow> int \<Rightarrow> (string \<times> ustr) list
    \<Rightarrow> error + (string \<times> ustr) list" where
  "keyword_loop [] text max_features features = Inr features"
| "keyword_loop ((pattern, label) # rest) text max_features features =
     bind_e (match_loop label
               (slice_to (max_features - int (length features)) (re_findall pattern text True))
               features)
       (keyword_loop rest text max_features)"

definition extract_key_features :: "ustr \<Rightarrow> int \<Rightarrow> error + (string \<times> ustr) list" where
  "extract_key_features text max_features =
     bind_e (bullet_loop (slice_to max_features (re_findall bullet_rx text False)) [])
       (\<lambda>features. if features \<noteq> [] then Inr features
                   else keyword_loop feature_keywords text max_features features)"

section \<open>The brand\<close>

text \<open>\<open>brand[0]\<close> raises IndexError on an empty string.\<close>

definition extract_brand :: "ustr option \<Rightarrow> ustr option \<Rightarrow> error + ustr option" where
  "extract_brand title0 vendor =
     (case (case vendor of
              None \<Rightarrow> None
            | Some v \<Rightarrow> (let brand = strip v in
                         if 2 < length brand \<and> length brand < 30 then Some brand else None)) of
        Some brand \<Rightarrow> Inr (Some brand)
      | None \<Rightarrow>
          (case title0 of
             None \<Rightarrow> Inr None
           | Some t \<Rightarrow>
               (case split t of
                  [] \<Rightarrow> Inr None
                | brand # _ \<Rightarrow>
                    (case brand of
                       [] \<Rightarrow> Inl IndexError
                     | c # _ \<Rightarrow>
                         if isupper1 c \<and> 2 < length brand \<and> length brand < 30
                         then Inr (Some brand) else Inr None))))"

section \<open>Processing a row\<close>

text \<open>
  The cells of a row that \<open>process_row\<close> reads: \<open>Body HTML\<close>, \<open>Title\<close>, \<open>Vendor\<close>,
  \<open>Type\<close> and the material metafield. A cell is \<open>None\<close> when \<open>pd.notna\<close> is false of it,
  and otherwise holds the text \<open>str\<close> gives.
\<close>

record row =
  body_html :: "ustr option"
  title_cell :: "ustr option"
  vendor_cell :: "ustr option"
  type_cell :: "ustr option"
  material_cell :: "ustr option"

text \<open>
  \<open>clean_html\<close>. The HTML parser is a library: \<open>get_text\<close> stands for
  \<open>BeautifulSoup(s, 'html.parser').get_text(separator=' ', strip=True)\<close> and is a
  parameter of the model.
\<close>

definition clean_html :: "(ustr \<Rightarrow> ustr) \<Rightarrow> ustr option \<Rightarrow> ustr" where
  "clean_html get_text html_text =
     (case html_text of None \<Rightarrow> [] | Some h \<Rightarrow> join_space (split (get_text h)))"

text \<open>\<open>all_specs.update(text_specs)\<close>\<close>

fun dict_update :: "specs \<Rightarrow> specs \<Rightarrow> specs" where
  "dict_update d [] = d"
| "dict_update d ((k, v) # kvs) = dict_update (dict_set d k v) kvs"

text \<open>Step 1: the specifications of the description.\<close>

definition description_specs :: "(ustr \<Rightarrow> ustr) \<Rightarrow> row \<Rightarrow> specs" where
  "description_specs get_text r =
     (case body_html r of
        None \<Rightarrow> []
      | Some h \<Rightarrow> dict_update [] (extract_specs_from_text (clean_html get_text (Some h)) 5))"

text \<open>Step 2: the specifications of the title, for the labels not yet set.\<close>

fun add_missing :: "specs \<Rightarrow> specs \<Rightarrow> specs" where
  "add_missing all_specs [] = all_specs"
| "add_missing all_specs ((k, v) # kvs) =
     add_missing (if \<not> dict_has all_specs k then dict_set all_specs k v else all_specs) kvs"

definition title_specs :: "(ustr \<Rightarrow> ustr) \<Rightarrow> row \<Rightarrow> specs" where
  "title_specs get_text r =
     (case title_cell r of
        None \<Rightarrow> []
      | Some t \<Rightarrow> extract_specs_from_text (clean_html get_text (Some t)) 2)"

definition with_title :: "(ustr \<Rightarrow> ustr) \<Rightarrow> row \<Rightarrow> specs \<Rightarrow> specs" where
  "with_title get_text r all_specs = add_missing all_specs (title_specs get_text r)"

text \<open>Step 3: the brand.\<close>

definition with_brand :: "row \<Rightarrow> specs \<Rightarrow> error + specs" where
  "with_brand r all_specs =
     bind_e (extract_brand (title_cell r) (vendor_cell r))
       (\<lambda>brand. Inr (if truthy brand \<and> \<not> dict_has all_specs ''Brand''
                      then dict_set all_specs ''Brand'' (the brand) else all_specs))"

text \<open>Step 4: the product type.\<close>

definition with_category :: "row \<Rightarrow> specs \<Rightarrow> specs" where
  "with_category r all_specs =
     (case type_cell r of
        None \<Rightarrow> all_specs
      | Some ty \<Rightarrow>
          (let product_type = strip ty in
           if product_type \<noteq> [] \<and> 3 < length product_type \<and> length product_type < 50
           then dict_set all_specs ''Category'' product_type else all_specs))"

text \<open>Step 5: the material of the metafield.\<close>

definition with_material :: "row \<Rightarrow> specs \<Rightarrow> specs" where
  "with_material r all_specs =
     (case material_cell r of
        None \<Rightarrow> all_specs
      | Some mt \<Rightarrow>
          (let material = strip mt in
           if \<not> dict_has all_specs ''Material'' \<and> 3 < length material \<and> length material < 30
           then dict_set all_specs ''Material'' material else all_specs))"

text \<open>Steps 1 to 5.\<close>

definition specs_before_features :: "(ustr \<Rightarrow> ustr) \<Rightarrow> row \<Rightarrow> error + specs" where
  "specs_before_features get_text r =
     bind_e (with_brand r (with_title get_text r (description_specs get_text r)))
       (\<lambda>all_specs. Inr (with_material r (with_category r all_specs)))"

text \<open>Step 6: the features, when fewer than 4 labels are set.\<close>

definition runs_features :: "row \<Rightarrow> specs \<Rightarrow> bool" where
  "runs_features r all_specs = (length all_specs < 4 \<and> body_html r \<noteq> None)"

definition with_features :: "(ustr \<Rightarrow> ustr) \<Rightarrow> row \<Rightarrow> specs \<Rightarrow> error + specs" where
  "with_features get_text r all_specs =
     (if runs_features r all_specs then
        bind_e (extract_key_features (clean_html get_text (body_html r))
                  (min 2 (5 - int (length all_specs))))
          (\<lambda>features. Inr (dict_update all_specs features))
      else Inr all_specs)"

text \<open>
  \<open>process_row\<close>, up to the dictionary \<open>all_specs\<close> that it hands to
  \<open>format_specs_for_shopify\<close>.
\<close>

definition process_row :: "(ustr \<Rightarrow> ustr) \<Rightarrow> row \<Rightarrow> error + specs" where
  "process_row get_text r =
     bind_e (specs_before_features get_text r) (with_features get_text r)"

text \<open>The labels of the catalogue.\<close>

definition labels :: "string list" where
  "labels = map fst patterns"

section \<open>Auxiliary notions of the properties\<close>

text \<open>A feature entry: its label is one of the two feature labels and its value is valid.\<close>

definition feature_ok :: "string \<times> ustr \<Rightarrow> bool" where
  "feature_ok e = ((fst e = ''Feature'' \<or> fst e = ''Included'')
                   \<and> is_valid_value (snd e) 100 = Inr True)"

text \<open>
  What is checked of the value of an entry: either the validator has accepted it, or it
  is a brand, a category or a material within the length bounds of its step.
\<close>

definition checked :: "string \<Rightarrow> ustr \<Rightarrow> bool" where
  "checked k v = (is_valid_value v 100 = Inr True
     \<or> (k = ''Brand'' \<and> 2 < length v \<and> length v < 30)
     \<or> (k = ''Category'' \<and> 3 < length v \<and> length v < 50)
     \<or> (k = ''Material'' \<and> 3 < length v \<and> length v < 30))"

text \<open>Example rows.\<close>

definition empty_row :: row where
  "empty_row = \<lparr>body_html = None, title_cell = None, vendor_cell = None, type_cell = None,
                 material_cell = None\<rparr>"

definition vendor_row :: row where
  "vendor_row = empty_row\<lparr>vendor_cell := Some (u ''H&M'')\<rparr>"

definition scale_row :: row where
  "scale_row = empty_row\<lparr>body_html := Some (u ''Weight: 5 KG''),
                           title_cell := Some (u ''Scale 2 lbs'')\<rparr>"

definition blender_row :: row where
  "blender_row = empty_row\<lparr>
     body_html := Some (u ''Featuring: a removable nonstick plate for easy cleaning.''),
     title_cell := Some (u ''Acme Blender 500''), vendor_cell := Some (u ''Salton'')\<rparr>"


text \<open>Example texts with bullet glyphs.\<close>

definition swatches_text :: ustr where
  "swatches_text = u ''Includes: one lid and two cups. '' @ [8226] @ u '' Red, Blue.''"

definition parts_text :: ustr where
  "parts_text = u ''Featuring: a removable nonstick plate for easy cleaning. '' @ [8226]
     @ u '' Dishwasher safe parts''"

text \<open>The positions of a text: the character before and the rest of the text.\<close>

fun positions :: "uchar option \<Rightarrow> ustr \<Rightarrow> (uchar option \<times> ustr) list" where
  "positions pv [] = [(pv, [])]"
| "positions pv (c # t) = (pv, c # t) # positions (Some c) t"

text \<open>
  The occurrences of a pattern in a text: every state in which the pattern can end,
  from every position.
\<close>

definition occurrences :: "rx \<Rightarrow> ustr \<Rightarrow> mstate list" where
  "occurrences r text =
     concat (map (\<lambda>p. ms True r (fst p, snd p, \<lambda>_. None)) (positions None text))"

text \<open>The pattern \<open>(\d+)\s*(watt|watts|w)\b\<close>: the Power pattern without its lookahead.\<close>

definition power_core_rx :: rx where
  "power_core_rx = seqs [Grp 1 digits, ws, Grp 2 (alts [lit ''watt'', lit ''watts'', lit ''w'']),
     WordB]"

text \<open>The rest of a text starts with the word \<open>max\<close>, after white space if any.\<close>

definition followed_by_max :: "ustr \<Rightarrow> bool" where
  "followed_by_max rest = (take 3 (dropWhile isspace1 rest) = u ''max'')"

text \<open>The text after the position of a matcher state.\<close>

definition rest_of :: "mstate \<Rightarrow> ustr" where
  "rest_of s = fst (snd s)"

text \<open>The units of the Weight pattern, and the pattern of its second group.\<close>

definition weight_units :: "ustr list" where
  "weight_units = map u [''lb'', ''lbs'', ''pound'', ''pounds'', ''kg'', ''kilogram'', ''kilograms'']"

definition weight_units_rx :: rx where
  "weight_units_rx = alts [opt_s ''lb'', opt_s ''pound'', lit ''kg'', opt_s ''kilogram'']"

text \<open>
  What the Weight pattern lets through under \<open>re.IGNORECASE\<close>: a text that matches a
  word character by character, a character of a number (one that \<open>\d\<close> or the literal
  dot matches) and a character that \<open>\s\<close> matches.
\<close>

definition matches_word :: "ustr \<Rightarrow> ustr \<Rightarrow> bool" where
  "matches_word w x = list_all2 (chr_eq True) w x"

definition number_char :: "uchar \<Rightarrow> bool" where
  "number_char c = (cls_ok True (Pos isdigit1) c \<or> chr_eq True 46 c)"

definition space_char :: "uchar \<Rightarrow> bool" where
  "space_char c = cls_ok True (Pos isspace1) c"

section \<open>Properties\<close>

subsection \<open>The validator and the dictionary\<close>

lemma is_valid_value_total: "\<exists>b. is_valid_value v mx = Inr b"
  by (auto simp: is_valid_value_def Let_def)

lemma is_valid_value_iff:
  "is_valid_value v mx = Inr True \<longleftrightarrow>
     strip v \<noteq> [] \<and> int (length (strip v)) \<le> mx
     \<and> 10 * length (filter (\<lambda>c. \<not> isalnum1 c \<and> c \<noteq> 32) (strip v)) \<le> 3 * length (strip v)
     \<and> count (strip v) 44 \<le> 5 \<and> count (strip v) 46 \<le> 5"
proof (cases "v = []")
  case True
  then show ?thesis by (simp add: is_valid_value_def strip_def rstrip_chars_def)
next
  case False
  then show ?thesis by (auto simp: is_valid_value_def Let_def)
qed

lemma bind_e_Inr_iff: "bind_e x f = Inr y \<longleftrightarrow> (\<exists>a. x = Inr a \<and> f a = Inr y)"
  by (cases x) (simp_all add: bind_e_def)

lemma length_dict_set:
  "length (dict_set d k v) = (if dict_has d k then length d else Suc (length d))"
  by (induction d k v rule: dict_set.induct) (auto simp: dict_has_def)

lemma set_dict_set: "set (dict_set d k v) \<subseteq> insert (k, v) (set d)"
  by (induction d k v rule: dict_set.induct) auto

lemma keys_dict_set: "fst ` set (dict_set d k v) = insert k (fst ` set d)"
  by (induction d k v rule: dict_set.induct) auto

lemma dict_has_dict_set: "dict_has (dict_set d k v) k' \<longleftrightarrow> k' = k \<or> dict_has d k'"
  by (auto simp: dict_has_def keys_dict_set)

lemma map_of_dict_set: "map_of (dict_set d k v) = (map_of d)(k \<mapsto> v)"
  by (induction d k v rule: dict_set.induct) (auto simp: fun_eq_iff)

lemma dict_get_dict_set:
  "dict_get (dict_set d k v) k' = (if k' = k then Some v else dict_get d k')"
  by (simp add: dict_get_def map_of_dict_set)

lemma dict_has_iff_get: "dict_has d k \<longleftrightarrow> dict_get d k \<noteq> None"
  by (simp add: dict_has_def dict_get_def map_of_eq_None_iff)

lemma distinct_dict_set: "distinct (map fst d) \<Longrightarrow> distinct (map fst (dict_set d k v))"
proof (induction d)
  case Nil
  then show ?case by simp
next
  case (Cons p d)
  obtain k' v' where p: "p = (k', v')" by (cases p)
  from Cons p show ?case using keys_dict_set[of d k v] by auto
qed

subsection \<open>The pattern pass\<close>

lemma try_rules_valid:
  "try_rules rules t = Some v \<Longrightarrow> v \<noteq> [] \<and> is_valid_value v 100 = Inr True"
proof (induction rules)
  case Nil
  then show ?case by simp
next
  case (Cons rl rules)
  obtain pattern formatter where rl: "rl = (pattern, formatter)" by (cases rl)
  show ?case
  proof (cases "re_search pattern t True")
    case None
    with Cons rl show ?thesis by simp
  next
    case (Some m)
    show ?thesis
    proof (cases "formatter m")
      case (Inl e)
      with Cons rl Some show ?thesis by (simp add: bind_e_def)
    next
      case (Inr w)
      obtain b where b: "is_valid_value w 100 = Inr b"
        using is_valid_value_total by blast
      show ?thesis
      proof (cases "w = []")
        case True
        with Cons rl Some Inr show ?thesis by (simp add: bind_e_def)
      next
        case False
        with Cons rl Some Inr b show ?thesis by (cases b) (auto simp: bind_e_def)
      qed
    qed
  qed
qed

lemma extract_loop_length:
  "length (extract_loop ps t mx specs) \<le> max (length specs) (nat mx)"
proof (induction ps arbitrary: specs)
  case Nil
  then show ?case by simp
next
  case (Cons p ps)
  obtain name rules where p: "p = (name, rules)" by (cases p)
  show ?case
  proof (cases "int (length specs) \<ge> mx")
    case True
    with p show ?thesis by simp
  next
    case False
    define specs' where
      "specs' = (case try_rules rules t of None \<Rightarrow> specs | Some v \<Rightarrow> dict_set specs name v)"
    have "length specs' \<le> Suc (length specs)"
      by (simp add: specs'_def length_dict_set split: option.splits)
    with False have le: "length specs' \<le> nat mx" by linarith
    have "extract_loop (p # ps) t mx specs = extract_loop ps t mx specs'"
      using False p by (simp add: specs'_def)
    with Cons.IH[of specs'] le show ?thesis by simp
  qed
qed

lemma extract_loop_entries:
  "(k, v) \<in> set (extract_loop ps t mx specs) \<Longrightarrow>
     (k, v) \<in> set specs \<or> (k \<in> fst ` set ps \<and> v \<noteq> [] \<and> is_valid_value v 100 = Inr True)"
proof (induction ps arbitrary: specs)
  case Nil
  then show ?case by simp
next
  case (Cons p ps)
  obtain name rules where p: "p = (name, rules)" by (cases p)
  show ?case
  proof (cases "int (length specs) \<ge> mx")
    case True
    with Cons.prems p show ?thesis by simp
  next
    case False
    define specs' where
      "specs' = (case try_rules rules t of None \<Rightarrow> specs | Some v \<Rightarrow> dict_set specs name v)"
    have step: "(k, v) \<in> set specs' \<Longrightarrow>
        (k, v) \<in> set specs \<or> (k = name \<and> v \<noteq> [] \<and> is_valid_value v 100 = Inr True)"
      using set_dict_set[of specs name] try_rules_valid[of rules t]
      by (auto simp: specs'_def split: option.splits)
    have "extract_loop (p # ps) t mx specs = extract_loop ps t mx specs'"
      using False p by (simp add: specs'_def)
    with Cons.prems have "(k, v) \<in> set (extract_loop ps t mx specs')" by simp
    from Cons.IH[OF this] step p show ?thesis by auto
  qed
qed

lemma extract_loop_distinct:
  "distinct (map fst specs) \<Longrightarrow> distinct (map fst (extract_loop ps t mx specs))"
proof (induction ps arbitrary: specs)
  case Nil
  then show ?case by simp
next
  case (Cons p ps)
  obtain name rules where p: "p = (name, rules)" by (cases p)
  have "distinct (map fst (case try_rules rules t of None \<Rightarrow> specs
                           | Some v \<Rightarrow> dict_set specs name v))"
    using Cons.prems by (simp add: distinct_dict_set split: option.splits)
  from Cons.IH[OF this] Cons.prems p show ?case by simp
qed

lemma extract_specs_length: "0 \<le> mx \<Longrightarrow> length (extract_specs_from_text text mx) \<le> nat mx"
  using extract_loop_length[of "patterns" "lower text" mx "[]"]
  by (simp add: extract_specs_from_text_def)

lemma extract_specs_distinct: "distinct (map fst (extract_specs_from_text text mx))"
  by (simp add: extract_specs_from_text_def extract_loop_distinct)

lemma extract_specs_entries:
  "(k, v) \<in> set (extract_specs_from_text text mx) \<Longrightarrow>
     k \<in> set labels \<and> v \<noteq> [] \<and> is_valid_value v 100 = Inr True"
  using extract_loop_entries[of k v "patterns" "lower text" mx "[]"]
  by (simp add: extract_specs_from_text_def labels_def)

text \<open>
  Claim C4. For every text, the pattern pass of the description, which is called with
  \<open>max_specs = 5\<close>, returns at most 5 entries, and the pattern pass of the title,
  called with \<open>max_specs = 2\<close>, returns at most 2 entries; the labels of the entries
  are distinct.
\<close>

theorem cap_law:
  "length (extract_specs_from_text text 5) \<le> 5 \<and> length (extract_specs_from_text text 2) \<le> 2
   \<and> distinct (map fst (extract_specs_from_text text 5))
   \<and> distinct (map fst (extract_specs_from_text text 2))"
  using extract_specs_length[of 5 "text"] extract_specs_length[of 2 "text"]
  by (simp add: extract_specs_distinct)

subsection \<open>Evaluation\<close>

text \<open>The defining equations that compute the functions on a given text.\<close>

lemmas char_defs = isdigit1_def isspace1_def isword1_def isalnum1_def isupper1_def
  islower1_def lower1_def upper1_def chr_eq_def in_set_def at_boundary_def quote_def xsep_def
  az_space_def bullet_def dot_any_def one_of_def

lemmas str_defs = u_def lower_def upper_def title_def strip_def rstrip_chars_def split_def
  isdigit_def count_def remove_char_def slice_to_def

lemmas rx_defs = lit_def num_def digits_def ws_def ws1_def opt_s_def dimensions_rx1_def
  dimensions_rx2_def weight_rx_def capacity_rx1_def capacity_rx2_def power_rx_def
  voltage_rx_def material_rx1_def material_rx2_def color_rx_def temperature_rx_def
  settings_rx_def pieces_rx_def filler_rx_def bullet_rx_def keyword_rx_def
  feature_keywords_def

lemmas re_defs = re_search_def match_here_def re_sub_empty_def re_findall_def group_def
  groups_def upt_rec

lemmas fmt_defs = bind_e_def fstr_def the_str_def truthy_def format_pair_def format_with_def
  format_dimensions_def clean_material_def format_title_def format_strip_title_def
  format_temperature_def is_valid_value_def

lemmas pass_defs = extract_specs_from_text_def patterns_def dict_get_def dict_has_def

lemmas eval_defs = char_defs str_defs rx_defs re_defs fmt_defs pass_defs

text \<open>
  Claim C6 as stated fails on its second input: the text \<open>10x5\<close> gives no entry at
  all. The first Dimensions pattern needs three numbers, and the second one, which takes
  two, needs the word \<open>dimension\<close>, \<open>dimensions\<close> or \<open>size\<close> before them.
\<close>
theorem dimensions_two_numbers_counterexample:
  "extract_specs_from_text (u ''10x5'') 6 = []
   \<and> dict_get (extract_specs_from_text (u ''10x5'') 6) ''Dimensions'' \<noteq> Some (u ''10 x 5'')"
  by (simp add: eval_defs)

text \<open>
  Claim C6, amended. The text \<open>12.5 x 8 x 3 inches\<close> gives the entry Dimensions =
  \<open>12.5 x 8 x 3 inches\<close>. The text \<open>10x5\<close> gives no Dimensions entry; after the
  keyword, as in \<open>size: 10x5\<close>, the two numbers give Dimensions = \<open>10 x 5\<close>, with
  no unit.
\<close>
theorem dimension_formatting:
  "extract_specs_from_text (u ''12.5 x 8 x 3 inches'') 6
     = [(''Dimensions'', u ''12.5 x 8 x 3 inches'')]
   \<and> dict_get (extract_specs_from_text (u ''10x5'') 6) ''Dimensions'' = None
   \<and> extract_specs_from_text (u ''size: 10x5'') 6 = [(''Dimensions'', u ''10 x 5'')]"
  by (simp add: eval_defs)

text \<open>
  Claim C9 as stated fails in the value it names: on \<open>up to 12 cups\<close> the optional
  unit group of the Temperature Range pattern takes the letter \<open>c\<close> of \<open>cups\<close>, and
  the entry is \<open>12\<degree> C\<close>, not \<open>12\<degree> F\<close>.
\<close>
theorem temperature_cups_counterexample:
  "dict_get (extract_specs_from_text (u ''up to 12 cups'') 6) ''Temperature Range''
     = Some (u ''12'' @ [176] @ u '' C'')
   \<and> dict_get (extract_specs_from_text (u ''up to 12 cups'') 6) ''Temperature Range''
     \<noteq> Some (u ''12'' @ [176] @ u '' F'')"
  by (simp add: eval_defs)

text \<open>
  Claim C9, amended. A text with \<open>up to N\<close> and no temperature wording gets a
  Temperature Range entry: \<open>up to 12 cups\<close> gives \<open>12\<degree> C\<close> (beside the
  Capacity entry), and \<open>up to 12 slices\<close>, where no unit letter follows the number,
  gives the default \<open>12\<degree> F\<close>.
\<close>
theorem temperature_without_wording:
  "extract_specs_from_text (u ''up to 12 cups'') 6
     = [(''Capacity'', u ''12 cups''), (''Temperature Range'', u ''12'' @ [176] @ u '' C'')]
   \<and> extract_specs_from_text (u ''up to 12 slices'') 6
     = [(''Temperature Range'', u ''12'' @ [176] @ u '' F'')]"
  by (simp add: eval_defs)

text \<open>
  Claim C7 as stated fails: the patterns are matched against the lower-cased text, so
  the unit written \<open>KG\<close> comes out as \<open>kg\<close>.
\<close>
theorem weight_unit_counterexample:
  "dict_get (extract_specs_from_text (u ''5 KG'') 6) ''Weight'' = Some (u ''5 kg'')
   \<and> dict_get (extract_specs_from_text (u ''5 KG'') 6) ''Weight'' \<noteq> Some (u ''5 KG'')"
  by (simp add: eval_defs)

subsection \<open>The brand\<close>

lemma split_from_nonempty: "w \<in> set (split_from cur s) \<Longrightarrow> w \<noteq> []"
  by (induction s arbitrary: cur) (auto split: if_splits)

lemma split_nonempty: "w \<in> set (split s) \<Longrightarrow> w \<noteq> []"
  by (simp add: split_def split_from_nonempty)

lemma extract_brand_total:
  "\<exists>b. extract_brand t v = Inr b \<and> (\<forall>x. b = Some x \<longrightarrow> 2 < length x \<and> length x < 30)"
proof -
  have words: "split s = w # ws \<Longrightarrow> w \<noteq> []" for s w ws
    using split_nonempty[of w s] by simp
  show ?thesis
    by (auto simp: extract_brand_def Let_def dest: words
             split: option.splits list.splits)
qed

subsection \<open>The feature phrases\<close>

lemma bullet_loop_total:
  "\<exists>added. bullet_loop bs fs = Inr (fs @ added) \<and> length added \<le> length bs
     \<and> list_all feature_ok added \<and> list_all (\<lambda>e. fst e = ''Feature'') added"
proof (induction bs arbitrary: fs)
  case Nil
  then show ?case by simp
next
  case (Cons b bs)
  define feature where "feature = rstrip_chars (one_of (u ''.,'')) (strip b)"
  have "\<exists>ok. (if 10 < length feature \<and> length feature < 80
              then is_valid_value feature 100 else Inr False) = Inr ok"
    using is_valid_value_total[of feature 100]
    by (cases "10 < length feature \<and> length feature < 80") auto
  then obtain ok where ok: "(if 10 < length feature \<and> length feature < 80
              then is_valid_value feature 100 else Inr False) = Inr ok"
    by blast
  define fs' where "fs' = (if ok then fs @ [(''Feature'', feature)] else fs)"
  have step: "bullet_loop (b # bs) fs = bullet_loop bs fs'"
    using ok by (simp add: Let_def feature_def[symmetric] bind_e_def fs'_def)
  have okv: "ok \<Longrightarrow> is_valid_value feature 100 = Inr True"
    using ok by (auto split: if_splits)
  from Cons.IH[of fs'] obtain added where
    a: "bullet_loop bs fs' = Inr (fs' @ added)" "length added \<le> length bs"
       "list_all feature_ok added" "list_all (\<lambda>e. fst e = ''Feature'') added"
    by blast
  show ?case
  proof (cases ok)
    case True
    with okv have "feature_ok (''Feature'', feature)" by (simp add: feature_ok_def)
    with True a step show ?thesis
      by (intro exI[of _ "(''Feature'', feature) # added"]) (simp add: fs'_def)
  next
    case False
    with a step show ?thesis
      by (intro exI[of _ added]) (simp add: fs'_def)
  qed
qed

lemma match_loop_total:
  assumes "label = ''Feature'' \<or> label = ''Included''"
  shows "\<exists>added. match_loop label mts fs = Inr (fs @ added) \<and> length added \<le> length mts
     \<and> list_all feature_ok added"
proof (induction mts arbitrary: fs)
  case Nil
  then show ?case by simp
next
  case (Cons m mts)
  define feature where "feature = rstrip_chars (one_of (u '','')) (strip m)"
  have "\<exists>ok. (if 15 < length feature \<and> length feature < 80
              then is_valid_value feature 100 else Inr False) = Inr ok"
    using is_valid_value_total[of feature 100]
    by (cases "15 < length feature \<and> length feature < 80") auto
  then obtain ok where ok: "(if 15 < length feature \<and> length feature < 80
              then is_valid_value feature 100 else Inr False) = Inr ok"
    by blast
  define fs' where "fs' = (if ok then fs @ [(label, feature)] else fs)"
  have step: "match_loop label (m # mts) fs = match_loop label mts fs'"
    using ok by (simp add: Let_def feature_def[symmetric] bind_e_def fs'_def)
  have okv: "ok \<Longrightarrow> is_valid_value feature 100 = Inr True"
    using ok by (auto split: if_splits)
  from Cons.IH[of fs'] obtain added where
    a: "match_loop label mts fs' = Inr (fs' @ added)" "length added \<le> length mts"
       "list_all feature_ok added"
    by blast
  show ?case
  proof (cases ok)
    case True
    with okv assms have "feature_ok (label, feature)" by (simp add: feature_ok_def)
    with True a step show ?thesis
      by (intro exI[of _ "(label, feature) # added"]) (simp add: fs'_def)
  next
    case False
    with a step show ?thesis
      by (intro exI[of _ added]) (simp add: fs'_def)
  qed
qed

lemma length_slice_to: "0 \<le> k \<Longrightarrow> length (slice_to k xs) \<le> nat k"
  by (simp add: slice_to_def)

lemma keyword_loop_total:
  assumes "list_all (\<lambda>p. snd p = ''Feature'' \<or> snd p = ''Included'') kws"
    and "int (length fs) \<le> mx"
  shows "\<exists>added. keyword_loop kws text mx fs = Inr (fs @ added)
     \<and> int (length (fs @ added)) \<le> mx \<and> list_all feature_ok added"
  using assms
proof (induction kws arbitrary: fs)
  case Nil
  then show ?case by simp
next
  case (Cons kw kws)
  obtain pattern label where kw: "kw = (pattern, label)" by (cases kw)
  define mts where "mts = slice_to (mx - int (length fs)) (re_findall pattern text True)"
  have lab: "label = ''Feature'' \<or> label = ''Included''"
    using Cons.prems(1) kw by simp
  from match_loop_total[OF lab, of mts fs] obtain a1 where
    a1: "match_loop label mts fs = Inr (fs @ a1)" "length a1 \<le> length mts" "list_all feature_ok a1"
    by blast
  have "length mts \<le> nat (mx - int (length fs))"
    unfolding mts_def using Cons.prems(2) by (intro length_slice_to) simp
  with a1(2) Cons.prems(2) have le: "int (length (fs @ a1)) \<le> mx" by simp
  have kws: "list_all (\<lambda>p. snd p = ''Feature'' \<or> snd p = ''Included'') kws"
    using Cons.prems(1) by simp
  from Cons.IH[OF kws le] obtain a2 where
    a2: "keyword_loop kws text mx (fs @ a1) = Inr ((fs @ a1) @ a2)"
        "int (length ((fs @ a1) @ a2)) \<le> mx" "list_all feature_ok a2"
    by blast
  have "keyword_loop (kw # kws) text mx fs = keyword_loop kws text mx (fs @ a1)"
    using a1(1) by (simp add: kw mts_def[symmetric] bind_e_def)
  with a1 a2 show ?case
    by (intro exI[of _ "a1 @ a2"]) simp
qed

lemma extract_key_features_total:
  assumes "0 \<le> mx"
  shows "\<exists>fs. extract_key_features text mx = Inr fs \<and> length fs \<le> nat mx
     \<and> list_all feature_ok fs"
proof -
  define bs where "bs = slice_to mx (re_findall bullet_rx text False)"
  from bullet_loop_total[of bs "[]"] obtain b where
    b: "bullet_loop bs [] = Inr b" "length b \<le> length bs" "list_all feature_ok b"
    by auto
  have lb: "length b \<le> nat mx"
    using b(2) length_slice_to[OF assms, of "re_findall bullet_rx text False"]
    by (simp add: bs_def)
  show ?thesis
  proof (cases "b = []")
    case False
    with b lb show ?thesis
      by (simp add: extract_key_features_def bs_def[symmetric] bind_e_def)
  next
    case True
    have kws: "list_all (\<lambda>p. snd p = ''Feature'' \<or> snd p = ''Included'') feature_keywords"
      by (simp add: feature_keywords_def)
    from keyword_loop_total[OF kws, of "[]" mx "text"] assms obtain a where
      a: "keyword_loop feature_keywords text mx [] = Inr a" "int (length a) \<le> mx"
         "list_all feature_ok a"
      by auto
    with True b show ?thesis
      by (simp add: extract_key_features_def bs_def[symmetric] bind_e_def)
  qed
qed

subsection \<open>Updating dictionaries\<close>

lemma dict_set_new: "\<not> dict_has d k \<Longrightarrow> dict_set d k v = d @ [(k, v)]"
  by (induction d k v rule: dict_set.induct) (auto simp: dict_has_def)

lemma length_dict_update: "length (dict_update d kvs) \<le> length d + length kvs"
proof (induction kvs arbitrary: d)
  case Nil
  then show ?case by simp
next
  case (Cons p kvs)
  obtain k v where p: "p = (k, v)" by (cases p)
  have "length (dict_set d k v) \<le> Suc (length d)" by (simp add: length_dict_set)
  with Cons.IH[of "dict_set d k v"] p show ?case by simp
qed

lemma set_dict_update: "set (dict_update d kvs) \<subseteq> set d \<union> set kvs"
proof (induction kvs arbitrary: d)
  case Nil
  then show ?case by simp
next
  case (Cons p kvs)
  obtain k v where p: "p = (k, v)" by (cases p)
  from Cons.IH[of "dict_set d k v"] set_dict_set[of d k v] p show ?case by auto
qed

lemma dict_get_dict_update:
  "k \<notin> fst ` set kvs \<Longrightarrow> dict_get (dict_update d kvs) k = dict_get d k"
proof (induction kvs arbitrary: d)
  case Nil
  then show ?case by simp
next
  case (Cons p kvs)
  obtain k' v where p: "p = (k', v)" by (cases p)
  from Cons.prems p have "k \<noteq> k'" "k \<notin> fst ` set kvs" by auto
  with Cons.IH[of "dict_set d k' v"] p show ?case by (simp add: dict_get_dict_set)
qed

lemma dict_update_distinct:
  "distinct (map fst (d @ kvs)) \<Longrightarrow> dict_update d kvs = d @ kvs"
proof (induction kvs arbitrary: d)
  case Nil
  then show ?case by simp
next
  case (Cons p kvs)
  obtain k v where p: "p = (k, v)" by (cases p)
  from Cons.prems p have new: "\<not> dict_has d k" by (auto simp: dict_has_def)
  from Cons.prems p have "distinct (map fst ((d @ [(k, v)]) @ kvs))" by auto
  from Cons.IH[OF this] new p show ?case by (simp add: dict_set_new)
qed

lemma length_add_missing: "length (add_missing d kvs) \<le> length d + length kvs"
proof (induction kvs arbitrary: d)
  case Nil
  then show ?case by simp
next
  case (Cons p kvs)
  obtain k v where p: "p = (k, v)" by (cases p)
  define d' where "d' = (if \<not> dict_has d k then dict_set d k v else d)"
  have "length d' \<le> Suc (length d)" by (simp add: d'_def length_dict_set)
  with Cons.IH[of d'] p show ?case by (simp add: d'_def[symmetric])
qed

lemma set_add_missing: "set (add_missing d kvs) \<subseteq> set d \<union> set kvs"
proof (induction kvs arbitrary: d)
  case Nil
  then show ?case by simp
next
  case (Cons p kvs)
  obtain k v where p: "p = (k, v)" by (cases p)
  define d' where "d' = (if \<not> dict_has d k then dict_set d k v else d)"
  have "set d' \<subseteq> insert (k, v) (set d)" using set_dict_set[of d k v] by (auto simp: d'_def)
  with Cons.IH[of d'] p show ?case by (auto simp: d'_def[symmetric])
qed

lemma dict_get_add_missing:
  "dict_get d k = Some v \<Longrightarrow> dict_get (add_missing d kvs) k = Some v"
proof (induction kvs arbitrary: d)
  case Nil
  then show ?case by simp
next
  case (Cons p kvs)
  obtain k' v' where p: "p = (k', v')" by (cases p)
  define d' where "d' = (if \<not> dict_has d k' then dict_set d k' v' else d)"
  have "dict_get d' k = Some v"
    using Cons.prems by (auto simp: d'_def dict_get_dict_set dict_has_iff_get)
  from Cons.IH[OF this] p show ?case by (simp add: d'_def[symmetric])
qed

subsection \<open>The steps of \<open>process_row\<close>\<close>

lemma description_specs_eq:
  "description_specs get_text r =
     (case body_html r of None \<Rightarrow> []
      | Some h \<Rightarrow> extract_specs_from_text (clean_html get_text (Some h)) 5)"
  using dict_update_distinct[of "[]"]
  by (simp add: description_specs_def extract_specs_distinct split: option.splits)

lemma length_description_specs: "length (description_specs get_text r) \<le> 5"
  using extract_specs_length[of 5]
  by (simp add: description_specs_eq split: option.splits)

lemma length_title_specs: "length (title_specs get_text r) \<le> 2"
  using extract_specs_length[of 2]
  by (simp add: title_specs_def split: option.splits)

lemma length_with_title:
  "length (with_title get_text r d) \<le> length d + 2"
  using length_add_missing[of d "title_specs get_text r"] length_title_specs[of get_text r]
  by (simp add: with_title_def)

lemma with_brand_total:
  "\<exists>d'. with_brand r d = Inr d' \<and> length d' \<le> Suc (length d)
     \<and> (\<forall>k. k \<noteq> ''Brand'' \<longrightarrow> dict_get d' k = dict_get d k)
     \<and> (\<forall>k v. (k, v) \<in> set d' \<longrightarrow>
           (k, v) \<in> set d \<or> (k = ''Brand'' \<and> 2 < length v \<and> length v < 30))"
proof -
  from extract_brand_total[of "title_cell r" "vendor_cell r"] obtain b where
    b: "extract_brand (title_cell r) (vendor_cell r) = Inr b"
       "\<forall>x. b = Some x \<longrightarrow> 2 < length x \<and> length x < 30"
    by blast
  show ?thesis
  proof (cases "truthy b \<and> \<not> dict_has d ''Brand''")
    case False
    with b show ?thesis by (auto simp: with_brand_def bind_e_def)
  next
    case True
    then obtain x where x: "b = Some x" by (cases b) (auto simp: truthy_def)
    with True b have eq: "with_brand r d = Inr (dict_set d ''Brand'' x)"
      by (simp add: with_brand_def bind_e_def)
    from x b set_dict_set[of d "''Brand''" x] show ?thesis
      unfolding eq by (auto simp: length_dict_set dict_get_dict_set)
  qed
qed

lemma with_category_props:
  "length (with_category r d) \<le> Suc (length d)
   \<and> (\<forall>k. k \<noteq> ''Category'' \<longrightarrow> dict_get (with_category r d) k = dict_get d k)
   \<and> (\<forall>k v. (k, v) \<in> set (with_category r d) \<longrightarrow>
         (k, v) \<in> set d \<or> (k = ''Category'' \<and> 3 < length v \<and> length v < 50))"
  using set_dict_set[of d "''Category''"]
  by (auto simp: with_category_def Let_def length_dict_set dict_get_dict_set
           split: option.splits)

lemma with_material_props:
  "length (with_material r d) \<le> Suc (length d)
   \<and> (\<forall>k v. dict_get d k = Some v \<longrightarrow> dict_get (with_material r d) k = Some v)
   \<and> (\<forall>k v. (k, v) \<in> set (with_material r d) \<longrightarrow>
         (k, v) \<in> set d \<or> (k = ''Material'' \<and> 3 < length v \<and> length v < 30))"
  using set_dict_set[of d "''Material''"]
  by (auto simp: with_material_def Let_def length_dict_set dict_get_dict_set dict_has_iff_get
           split: option.splits)

lemmas row_defs = process_row_def specs_before_features_def with_features_def
  runs_features_def with_brand_def with_category_def with_material_def with_title_def
  title_specs_def description_specs_def clean_html_def extract_brand_def
  extract_key_features_def empty_row_def vendor_row_def scale_row_def blender_row_def

lemma labels_eq: "labels = [''Dimensions'', ''Weight'', ''Capacity'', ''Power'', ''Voltage'',
    ''Material'', ''Color'', ''Temperature Range'', ''Settings'', ''Pieces'']"
  by (simp add: labels_def patterns_def)

lemma process_row_steps:
  "\<exists>d2 fs. with_brand r (with_title get_text r (description_specs get_text r)) = Inr d2
     \<and> specs_before_features get_text r = Inr (with_material r (with_category r d2))
     \<and> process_row get_text r =
         Inr (if runs_features r (with_material r (with_category r d2))
              then dict_update (with_material r (with_category r d2)) fs
              else with_material r (with_category r d2))
     \<and> length fs \<le> 2 \<and> list_all feature_ok fs"
proof -
  from with_brand_total[of r "with_title get_text r (description_specs get_text r)"]
  obtain d2 where d2: "with_brand r (with_title get_text r (description_specs get_text r)) = Inr d2"
    by blast
  define d4 where "d4 = with_material r (with_category r d2)"
  have before: "specs_before_features get_text r = Inr d4"
    by (simp add: specs_before_features_def d2 bind_e_def d4_def)
  show ?thesis
  proof (cases "runs_features r d4")
    case False
    with before d2 show ?thesis
      by (intro exI[of _ d2] exI[of _ "[]"])
         (simp add: process_row_def with_features_def bind_e_def d4_def)
  next
    case True
    then have small: "length d4 < 4" by (simp add: runs_features_def)
    define mx where "mx = min 2 (5 - int (length d4))"
    from small have mx: "mx = 2" by (simp add: mx_def)
    from extract_key_features_total[of mx "clean_html get_text (body_html r)"] mx
    obtain fs where fs: "extract_key_features (clean_html get_text (body_html r)) mx = Inr fs"
        "length fs \<le> 2" "list_all feature_ok fs"
      by auto
    have "process_row get_text r = Inr (dict_update d4 fs)"
      using True fs(1)
      by (simp add: process_row_def before with_features_def bind_e_def mx_def)
    with True before d2 fs show ?thesis
      by (intro exI[of _ d2] exI[of _ fs]) (simp add: d4_def)
  qed
qed

lemma checked_before_features:
  assumes "specs_before_features get_text r = Inr b" and "(k, v) \<in> set b"
  shows "checked k v"
proof -
  define d0 where "d0 = description_specs get_text r"
  define d1 where "d1 = with_title get_text r d0"
  from with_brand_total[of r d1] obtain d2 where
    d2: "with_brand r d1 = Inr d2"
        "\<forall>k v. (k, v) \<in> set d2 \<longrightarrow>
           (k, v) \<in> set d1 \<or> (k = ''Brand'' \<and> 2 < length v \<and> length v < 30)"
    by blast
  have b: "b = with_material r (with_category r d2)"
    using assms(1) d2(1) by (simp add: specs_before_features_def bind_e_def d1_def d0_def)
  have v0: "e \<in> set d0 \<Longrightarrow> is_valid_value (snd e) 100 = Inr True" for e
    using extract_specs_entries[of "fst e" "snd e"]
    by (auto simp: d0_def description_specs_eq split: option.splits)
  have vt: "e \<in> set (title_specs get_text r) \<Longrightarrow> is_valid_value (snd e) 100 = Inr True" for e
    using extract_specs_entries[of "fst e" "snd e"]
    by (auto simp: title_specs_def split: option.splits)
  have v1: "e \<in> set d1 \<Longrightarrow> is_valid_value (snd e) 100 = Inr True" for e
    using set_add_missing[of d0 "title_specs get_text r"] v0[of e] vt[of e]
    by (auto simp: d1_def with_title_def)
  have c2: "(k, v) \<in> set d2 \<Longrightarrow> checked k v" for k v
    using d2(2) v1[of "(k, v)"] by (auto simp: checked_def)
  have c3: "(k, v) \<in> set (with_category r d2) \<Longrightarrow> checked k v" for k v
    using with_category_props[of r d2] c2[of k v] by (auto simp: checked_def)
  have "(k, v) \<in> set (with_material r (with_category r d2)) \<Longrightarrow> checked k v" for k v
    using with_material_props[of r "with_category r d2"] c3[of k v] by (auto simp: checked_def)
  with assms(2) b show ?thesis by simp
qed

lemma checked_process_row:
  assumes "process_row get_text r = Inr s" and "(k, v) \<in> set s"
  shows "checked k v"
proof -
  from process_row_steps[of r get_text] obtain d2 fs where
    st: "specs_before_features get_text r = Inr (with_material r (with_category r d2))"
        "process_row get_text r =
           Inr (if runs_features r (with_material r (with_category r d2))
                then dict_update (with_material r (with_category r d2)) fs
                else with_material r (with_category r d2))"
        "list_all feature_ok fs"
    by blast
  define b where "b = with_material r (with_category r d2)"
  have cb: "e \<in> set b \<Longrightarrow> checked (fst e) (snd e)" for e
    using checked_before_features[OF st(1), of "fst e" "snd e"] by (simp add: b_def)
  have cf: "e \<in> set fs \<Longrightarrow> checked (fst e) (snd e)" for e
    using st(3) by (auto simp: list_all_iff feature_ok_def checked_def)
  have "(k, v) \<in> set b \<or> (k, v) \<in> set fs"
    using assms st(2) set_dict_update[of b fs] by (auto simp: b_def split: if_splits)
  with cb[of "(k, v)"] cf[of "(k, v)"] show ?thesis by auto
qed

text \<open>
  Claim C1 as stated fails: the brand, the category and the material of the metafield
  are stored without a call of the validator. The vendor \<open>H&M\<close> becomes the Brand
  entry, and the validator rejects it, one of its three characters being special.
\<close>
theorem brand_not_validated_counterexample:
  "process_row id vendor_row = Inr [(''Brand'', u ''H&M'')]
   \<and> is_valid_value (u ''H&M'') 100 = Inr False"
  by (simp add: eval_defs row_defs)

text \<open>
  Claim C1, amended. Every value of every entry that \<open>process_row\<close> returns either
  satisfies the validator with the maximal length 100, or is the value of the Brand,
  Category or Material entry and then has a length strictly between 2 and 30, between 3
  and 50, or between 3 and 30.
\<close>
theorem values_checked:
  assumes "process_row get_text r = Inr s" and "(k, v) \<in> set s"
  shows "is_valid_value v 100 = Inr True
     \<or> (k = ''Brand'' \<and> 2 < length v \<and> length v < 30)
     \<or> (k = ''Category'' \<and> 3 < length v \<and> length v < 50)
     \<or> (k = ''Material'' \<and> 3 < length v \<and> length v < 30)"
  using checked_process_row[OF assms] by (simp add: checked_def)

theorem values_checked_witness:
  "process_row id scale_row = Inr [(''Weight'', u ''5 kg''), (''Brand'', u ''Scale'')]
   \<and> (''Weight'', u ''5 kg'') \<in> set [(''Weight'', u ''5 kg''), (''Brand'', u ''Scale'')]
   \<and> is_valid_value (u ''5 kg'') 100 = Inr True"
proof -
  have row: "process_row id scale_row = Inr [(''Weight'', u ''5 kg''), (''Brand'', u ''Scale'')]"
    by (simp add: eval_defs row_defs)
  have mem: "(''Weight'', u ''5 kg'') \<in> set [(''Weight'', u ''5 kg''), (''Brand'', u ''Scale'')]"
    by simp
  from values_checked[OF row mem] row mem show ?thesis by simp
qed



lemma label_not_added:
  "k \<in> set labels \<Longrightarrow> k \<noteq> ''Brand'' \<and> k \<noteq> ''Category'' \<and> k \<noteq> ''Feature'' \<and> k \<noteq> ''Included''"
  by (auto simp: labels_eq)

text \<open>
  Claim C3. When the pattern pass of the description gives the value \<open>v\<close> for a label
  and the pattern pass of the title gives a value for the same label, the dictionary
  that \<open>process_row\<close> returns has \<open>v\<close>, the value of the description, under that label.
\<close>
theorem description_wins:
  assumes "body_html r = Some h"
    and "dict_get (extract_specs_from_text (clean_html get_text (Some h)) 5) k = Some v"
    and "title_cell r = Some t"
    and "dict_get (extract_specs_from_text (clean_html get_text (Some t)) 2) k = Some v'"
  shows "\<exists>s. process_row get_text r = Inr s \<and> dict_get s k = Some v"
proof -
  define d0 where "d0 = description_specs get_text r"
  define d1 where "d1 = with_title get_text r d0"
  have g0: "dict_get d0 k = Some v"
    using assms(1,2) by (simp add: d0_def description_specs_eq)
  have "(k, v) \<in> set (extract_specs_from_text (clean_html get_text (Some h)) 5)"
    using assms(2) by (simp add: dict_get_def map_of_SomeD)
  then have "k \<in> set labels" using extract_specs_entries by blast
  then have k: "k \<noteq> ''Brand''" "k \<noteq> ''Category''" "k \<noteq> ''Feature''" "k \<noteq> ''Included''"
    using label_not_added by blast+
  have g1: "dict_get d1 k = Some v"
    using g0 by (simp add: d1_def with_title_def dict_get_add_missing)
  from process_row_steps[of r get_text] obtain d2 fs where
    st: "with_brand r d1 = Inr d2"
        "process_row get_text r =
           Inr (if runs_features r (with_material r (with_category r d2))
                then dict_update (with_material r (with_category r d2)) fs
                else with_material r (with_category r d2))"
        "list_all feature_ok fs"
    unfolding d1_def d0_def by blast
  from with_brand_total[of r d1] st(1) k(1) g1 have g2: "dict_get d2 k = Some v"
    by auto
  have g3: "dict_get (with_category r d2) k = Some v"
    using with_category_props[of r d2] k(2) g2 by simp
  have g4: "dict_get (with_material r (with_category r d2)) k = Some v"
    using with_material_props[of r "with_category r d2"] g3 by blast
  have "k \<notin> fst ` set fs"
    using st(3) k(3,4) by (auto simp: list_all_iff feature_ok_def)
  then have "dict_get (dict_update (with_material r (with_category r d2)) fs) k = Some v"
    using g4 by (simp add: dict_get_dict_update)
  with g4 st(2) show ?thesis by auto
qed

theorem description_wins_witness:
  "body_html scale_row = Some (u ''Weight: 5 KG'')
   \<and> dict_get (extract_specs_from_text (clean_html id (Some (u ''Weight: 5 KG''))) 5) ''Weight''
       = Some (u ''5 kg'')
   \<and> title_cell scale_row = Some (u ''Scale 2 lbs'')
   \<and> dict_get (extract_specs_from_text (clean_html id (Some (u ''Scale 2 lbs''))) 2) ''Weight''
       = Some (u ''2 lbs'')
   \<and> (\<exists>s. process_row id scale_row = Inr s \<and> dict_get s ''Weight'' = Some (u ''5 kg''))"
proof -
  have b: "body_html scale_row = Some (u ''Weight: 5 KG'')"
    by (simp add: scale_row_def empty_row_def)
  have d: "dict_get (extract_specs_from_text (clean_html id (Some (u ''Weight: 5 KG''))) 5)
             ''Weight'' = Some (u ''5 kg'')"
    by (simp add: eval_defs clean_html_def)
  have t: "title_cell scale_row = Some (u ''Scale 2 lbs'')"
    by (simp add: scale_row_def empty_row_def)
  have e: "dict_get (extract_specs_from_text (clean_html id (Some (u ''Scale 2 lbs''))) 2)
             ''Weight'' = Some (u ''2 lbs'')"
    by (simp add: eval_defs clean_html_def)
  from description_wins[OF b d t e] b d t e show ?thesis by blast
qed

text \<open>
  Claim C10. The dictionary that \<open>process_row\<close> returns has at most 10 entries: at
  most 5 after the description, at most 2 more after the title, at most 3 more after the
  brand, the category and the material. The feature step runs only with fewer than 4
  entries, adds at most \<open>min(2, 5 - count)\<close> entries, and then leaves at most 5.
\<close>
theorem at_most_ten_entries:
  "\<exists>b s. specs_before_features get_text r = Inr b \<and> process_row get_text r = Inr s
     \<and> length (description_specs get_text r) \<le> 5
     \<and> length (with_title get_text r (description_specs get_text r))
         \<le> length (description_specs get_text r) + 2
     \<and> length b \<le> length (with_title get_text r (description_specs get_text r)) + 3
     \<and> (if runs_features r b
         then length b < 4 \<and> length s \<le> length b + nat (min 2 (5 - int (length b)))
              \<and> length s \<le> 5
         else s = b)
     \<and> length s \<le> 10"
proof -
  define d0 where "d0 = description_specs get_text r"
  define d1 where "d1 = with_title get_text r d0"
  from process_row_steps[of r get_text] obtain d2 fs where
    st: "with_brand r d1 = Inr d2"
        "specs_before_features get_text r = Inr (with_material r (with_category r d2))"
        "process_row get_text r =
           Inr (if runs_features r (with_material r (with_category r d2))
                then dict_update (with_material r (with_category r d2)) fs
                else with_material r (with_category r d2))"
        "length fs \<le> 2"
    unfolding d1_def d0_def by blast
  define b where "b = with_material r (with_category r d2)"
  define s where "s = (if runs_features r b then dict_update b fs else b)"
  have l0: "length d0 \<le> 5" by (simp add: d0_def length_description_specs)
  have l1: "length d1 \<le> length d0 + 2"
    using length_with_title[of get_text r d0] by (simp add: d1_def)
  have l2: "length d2 \<le> Suc (length d1)"
    using with_brand_total[of r d1] st(1) by auto
  have l3: "length (with_category r d2) \<le> Suc (length d2)"
    using with_category_props[of r d2] by blast
  have l4: "length b \<le> Suc (length (with_category r d2))"
    using with_material_props[of r "with_category r d2"] unfolding b_def by blast
  have lb: "length b \<le> length d1 + 3" using l2 l3 l4 by linarith
  have ls: "length s \<le> length b + length fs"
    using length_dict_update[of b fs] by (simp add: s_def)
  have run: "runs_features r b \<Longrightarrow> length b < 4" by (simp add: runs_features_def)
  have feat: "if runs_features r b
      then length b < 4 \<and> length s \<le> length b + nat (min 2 (5 - int (length b)))
           \<and> length s \<le> 5
      else s = b"
  proof (cases "runs_features r b")
    case True
    with run have "length b < 4" by simp
    with ls st(4) True show ?thesis by simp
  next
    case False
    then show ?thesis by (simp add: s_def)
  qed
  have ten: "length s \<le> 10"
  proof (cases "runs_features r b")
    case True
    with feat show ?thesis by simp
  next
    case False
    with lb l1 l0 show ?thesis by (simp add: s_def)
  qed
  from st(2,3) l0 l1 lb feat ten show ?thesis
    unfolding b_def[symmetric] s_def[symmetric] d0_def[symmetric] d1_def[symmetric]
    by blast
qed

theorem at_most_ten_entries_witness:
  "specs_before_features id blender_row = Inr [(''Brand'', u ''Salton'')]
   \<and> runs_features blender_row [(''Brand'', u ''Salton'')]
   \<and> process_row id blender_row
       = Inr [(''Brand'', u ''Salton''),
              (''Feature'', u ''a removable nonstick plate for easy cleaning'')]
   \<and> length [(''Brand'', u ''Salton''),
              (''Feature'', u ''a removable nonstick plate for easy cleaning'')] \<le> (5::nat)"
proof -
  have d: "description_specs id blender_row = []"
    by (simp add: eval_defs description_specs_def clean_html_def blender_row_def empty_row_def)
  have t: "title_specs id blender_row = []"
    by (simp add: eval_defs title_specs_def clean_html_def blender_row_def empty_row_def)
  have f: "extract_key_features
             (clean_html id (Some (u ''Featuring: a removable nonstick plate for easy cleaning.''))) 2
           = Inr [(''Feature'', u ''a removable nonstick plate for easy cleaning'')]"
    by (simp add: eval_defs extract_key_features_def clean_html_def)
  have b: "specs_before_features id blender_row = Inr [(''Brand'', u ''Salton'')]"
    unfolding specs_before_features_def with_title_def d t
    by (simp add: char_defs str_defs fmt_defs dict_has_def with_brand_def with_category_def
          with_material_def extract_brand_def blender_row_def empty_row_def)
  have s: "process_row id blender_row
       = Inr [(''Brand'', u ''Salton''),
              (''Feature'', u ''a removable nonstick plate for easy cleaning'')]"
    unfolding process_row_def b
    by (simp add: bind_e_def with_features_def runs_features_def blender_row_def empty_row_def f)
  have rf: "runs_features blender_row [(''Brand'', u ''Salton'')]"
    by (simp add: runs_features_def blender_row_def empty_row_def)
  from at_most_ten_entries[of id blender_row] obtain b' s' where
    x: "specs_before_features id blender_row = Inr b'" "process_row id blender_row = Inr s'"
       "if runs_features blender_row b'
        then length b' < 4 \<and> length s' \<le> length b' + nat (min 2 (5 - int (length b')))
             \<and> length s' \<le> 5
        else s' = b'"
    by blast
  from x(1) b have b': "b' = [(''Brand'', u ''Salton'')]" by simp
  from x(2) s have s': "s' = [(''Brand'', u ''Salton''),
              (''Feature'', u ''a removable nonstick plate for easy cleaning'')]" by simp
  from x(3) rf have "length s' \<le> 5" unfolding b' by simp
  with b s rf show ?thesis unfolding s' by simp
qed

text \<open>
  Claim C5 as stated fails in its first half: the keyword phrases are tried whenever no
  bullet has been accepted, also in a text that has a bullet. In the text below the
  bullet pattern finds the segment \<open>Red, Blue.\<close>; without its last period the segment
  has 9 characters and is not accepted, and the phrase after \<open>Includes:\<close> is returned.
\<close>
theorem bullets_fallback_counterexample:
  "8226 \<in> set swatches_text \<and> bullet 8226
   \<and> re_findall bullet_rx swatches_text False = [u ''Red, Blue.'']
   \<and> extract_key_features swatches_text 2 = Inr [(''Included'', u ''one lid and two cups'')]"
  by (simp add: eval_defs extract_key_features_def swatches_text_def)

text \<open>
  Claim C5, amended. \<open>extract_key_features\<close> tries the keyword phrases exactly when
  the loop over the first \<open>max_features\<close> matches of the bullet pattern has accepted
  no feature. When it has accepted one, the result is the list of the accepted bullets,
  all labelled Feature and at most \<open>max_features\<close> of them, and no keyword phrase is
  looked for.
\<close>
theorem features_fallback:
  "\<exists>bs. bullet_loop (slice_to mx (re_findall bullet_rx text False)) [] = Inr bs
     \<and> list_all (\<lambda>e. fst e = ''Feature'') bs
     \<and> (0 \<le> mx \<longrightarrow> length bs \<le> nat mx)
     \<and> extract_key_features text mx
         = (if bs \<noteq> [] then Inr bs else keyword_loop feature_keywords text mx [])"
proof -
  define sl where "sl = slice_to mx (re_findall bullet_rx text False)"
  from bullet_loop_total[of sl "[]"] obtain bs where
    bs: "bullet_loop sl [] = Inr bs" "length bs \<le> length sl"
        "list_all (\<lambda>e. fst e = ''Feature'') bs"
    by auto
  have "0 \<le> mx \<Longrightarrow> length bs \<le> nat mx"
    using bs(2) length_slice_to[of mx "re_findall bullet_rx text False"] by (simp add: sl_def)
  moreover have "extract_key_features text mx
         = (if bs \<noteq> [] then Inr bs else keyword_loop feature_keywords text mx [])"
    using bs(1) by (simp add: extract_key_features_def sl_def[symmetric] bind_e_def)
  ultimately show ?thesis using bs(1,3) unfolding sl_def by blast
qed

theorem features_fallback_witness:
  "(0::int) \<le> 2
   \<and> bullet_loop (slice_to 2 (re_findall bullet_rx parts_text False)) []
       = Inr [(''Feature'', u ''Dishwasher safe parts'')]
   \<and> extract_key_features parts_text 2 = Inr [(''Feature'', u ''Dishwasher safe parts'')]
   \<and> keyword_loop feature_keywords parts_text 2 []
       = Inr [(''Feature'', u ''a removable nonstick plate for easy cleaning'')]"
proof -
  have b: "bullet_loop (slice_to 2 (re_findall bullet_rx parts_text False)) []
       = Inr [(''Feature'', u ''Dishwasher safe parts'')]"
    by (simp add: eval_defs parts_text_def)
  have k: "keyword_loop feature_keywords parts_text 2 []
       = Inr [(''Feature'', u ''a removable nonstick plate for easy cleaning'')]"
    by (simp add: eval_defs parts_text_def)
  from features_fallback[of 2 parts_text] obtain bs where
    x: "bullet_loop (slice_to 2 (re_findall bullet_rx parts_text False)) [] = Inr bs"
       "extract_key_features parts_text 2
         = (if bs \<noteq> [] then Inr bs else keyword_loop feature_keywords parts_text 2 [])"
    by blast
  from x(1) b have "bs = [(''Feature'', u ''Dishwasher safe parts'')]" by simp
  with x(2) b k show ?thesis by simp
qed

lemma search_from_None:
  "search_from ic r pv t = None \<longleftrightarrow>
     (\<forall>p \<in> set (positions pv t). match_here ic r (fst p) (snd p) = None)"
  by (induction t arbitrary: pv) (auto split: option.splits)

lemma match_here_None: "match_here ic r pv t = None \<longleftrightarrow> ms ic r (pv, t, \<lambda>_. None) = []"
  by (auto simp: match_here_def split: list.splits)

lemma ms_seq_neglook:
  "ms ic (Seq a (NegLook l)) s = filter (\<lambda>s'. ms ic l s' = []) (ms ic a s)"
proof -
  have "concat (map (ms ic (NegLook l)) xs) = filter (\<lambda>s'. ms ic l s' = []) xs" for xs
    by (induction xs) auto
  then show ?thesis by simp
qed

lemma ms_seq_assoc: "ms ic (Seq a (Seq b c)) s = ms ic (Seq (Seq a b) c) s"
proof -
  have flat: "concat (map (\<lambda>x. concat (map g (f x))) xs) = concat (map g (concat (map f xs)))"
    for xs :: "mstate list" and f g :: "mstate \<Rightarrow> mstate list"
    by (induction xs) auto
  have "ms ic (Seq b c) = (\<lambda>x. concat (map (ms ic c) (ms ic b x)))"
    by (intro ext) simp
  with flat[of "ms ic c" "ms ic b" "ms ic a s"] show ?thesis
    by simp
qed

lemma ms_seq_cong:
  assumes "\<And>s. ms ic b s = ms ic b' s"
  shows "ms ic (Seq a b) s = ms ic (Seq a b') s"
proof -
  have "ms ic b = ms ic b'" using assms by (intro ext)
  then show ?thesis by simp
qed

lemma power_rx_split:
  "ms ic power_rx s = ms ic (Seq power_core_rx (NegLook (seqs [ws, lit ''max'']))) s"
proof -
  let ?n = "NegLook (seqs [ws, lit ''max''])"
  let ?g = "Grp 2 (alts [lit ''watt'', lit ''watts'', lit ''w''])"
  have "ms ic (Seq (Grp 1 digits) (Seq ws (Seq ?g (Seq WordB ?n)))) s
      = ms ic (Seq (Grp 1 digits) (Seq ws (Seq (Seq ?g WordB) ?n))) s"
    by (intro ms_seq_cong ms_seq_assoc)
  also have "\<dots> = ms ic (Seq (Grp 1 digits) (Seq (Seq ws (Seq ?g WordB)) ?n)) s"
    by (intro ms_seq_cong ms_seq_assoc)
  also have "\<dots> = ms ic (Seq (Seq (Grp 1 digits) (Seq ws (Seq ?g WordB))) ?n) s"
    by (rule ms_seq_assoc)
  finally show ?thesis by (simp only: power_rx_def power_core_rx_def seqs.simps)
qed

lemma in_set_space: "in_set ic isspace1 c = isspace1 c"
  by (auto simp: in_set_def isspace1_def lower1_def upper1_def isupper1_def islower1_def)

lemma runs_dropWhile:
  "\<exists>pv'. (pv', dropWhile isspace1 t, cs) \<in> set (runs ic (Pos isspace1) n None (pv, t, cs))"
proof (induction t arbitrary: pv n)
  case Nil
  then show ?case by simp
next
  case (Cons c t)
  show ?case
  proof (cases "isspace1 c")
    case True
    with Cons[of "Suc n" "Some c"] show ?thesis by (auto simp: in_set_space)
  next
    case False
    then show ?thesis by auto
  qed
qed

lemma lit_match_take:
  "take (length w) t = w \<Longrightarrow> lit_match ic w (pv, t, cs) \<noteq> []"
proof (induction w arbitrary: pv t)
  case Nil
  then show ?case by simp
next
  case (Cons a w)
  then obtain t' where t: "t = a # t'" "take (length w) t' = w"
    by (cases t) auto
  with Cons.IH[of t' "Some a"] show ?case by (simp add: chr_eq_def)
qed

lemma lookahead_max:
  assumes "followed_by_max rest"
  shows "ms ic (seqs [ws, lit ''max'']) (pv, rest, cs) \<noteq> []"
proof -
  from runs_dropWhile[of rest cs ic 0 pv] obtain pv' where
    r: "(pv', dropWhile isspace1 rest, cs) \<in> set (runs ic (Pos isspace1) 0 None (pv, rest, cs))"
    by blast
  have "length (u ''max'') = 3" by (simp add: u_def)
  with assms have "lit_match ic (u ''max'') (pv', dropWhile isspace1 rest, cs) \<noteq> []"
    by (intro lit_match_take) (simp add: followed_by_max_def)
  with r show ?thesis
    by (auto simp: ws_def lit_def)
qed

lemma extract_loop_get_Some:
  "dict_get (extract_loop ps t mx specs) k = Some v \<Longrightarrow>
     dict_get specs k = Some v \<or> (\<exists>rules. (k, rules) \<in> set ps \<and> try_rules rules t = Some v)"
proof (induction ps arbitrary: specs)
  case Nil
  then show ?case by simp
next
  case (Cons p ps)
  obtain name rules where p: "p = (name, rules)" by (cases p)
  show ?case
  proof (cases "int (length specs) \<ge> mx")
    case True
    with Cons.prems p show ?thesis by simp
  next
    case False
    define specs' where
      "specs' = (case try_rules rules t of None \<Rightarrow> specs | Some w \<Rightarrow> dict_set specs name w)"
    have step: "dict_get specs' k = Some v \<Longrightarrow>
        dict_get specs k = Some v \<or> (k = name \<and> try_rules rules t = Some v)"
      by (auto simp: specs'_def dict_get_dict_set split: option.splits if_splits)
    have "extract_loop (p # ps) t mx specs = extract_loop ps t mx specs'"
      using False p by (simp add: specs'_def)
    with Cons.prems have "dict_get (extract_loop ps t mx specs') k = Some v" by simp
    from Cons.IH[OF this] step p show ?thesis by auto
  qed
qed

lemma power_rules:
  "(''Power'', rules) \<in> set patterns \<Longrightarrow> rules = [(power_rx, format_pair)]"
  by (simp add: patterns_def)

text \<open>
  Claim C8. When every occurrence of \<open>(\d+)\s*(watt|watts|w)\b\<close> in the lower-cased
  text is followed, after white space if any, by \<open>max\<close>, the pattern pass gives no
  Power entry; the text \<open>1500 watts max output\<close> is such a text.
\<close>
theorem power_followed_by_max:
  assumes "list_all (\<lambda>s. followed_by_max (rest_of s)) (occurrences power_core_rx (lower text))"
  shows "dict_get (extract_specs_from_text text max_specs) ''Power'' = None"
proof -
  have none: "ms True power_rx (fst p, snd p, \<lambda>_. None) = []"
    if p: "p \<in> set (positions None (lower text))" for p
  proof -
    have "ms True (seqs [ws, lit ''max'']) s' \<noteq> []"
      if s': "s' \<in> set (ms True power_core_rx (fst p, snd p, \<lambda>_. None))" for s'
    proof -
      from s' p have "s' \<in> set (occurrences power_core_rx (lower text))"
        by (auto simp: occurrences_def)
      with assms have "followed_by_max (rest_of s')" by (simp add: list_all_iff)
      from lookahead_max[OF this, of True "fst s'" "snd (snd s')"] show ?thesis
        by (simp add: rest_of_def)
    qed
    then show ?thesis
      by (simp add: power_rx_split ms_seq_neglook filter_empty_conv del: ms.simps)
  qed
  have "re_search power_rx (lower text) True = None"
    unfolding re_search_def search_from_None match_here_None using none by blast
  then have no_rule: "try_rules [(power_rx, format_pair)] (lower text) = None" by simp
  show ?thesis
  proof (cases "dict_get (extract_specs_from_text text max_specs) ''Power''")
    case None
    then show ?thesis .
  next
    case (Some v)
    from extract_loop_get_Some[OF Some[unfolded extract_specs_from_text_def]]
    obtain rules where r: "(''Power'', rules) \<in> set patterns"
        "try_rules rules (lower text) = Some v"
      by (auto simp: dict_get_def)
    from power_rules[OF r(1)] r(2) no_rule show ?thesis by (simp del: try_rules.simps)
  qed
qed

theorem power_followed_by_max_witness:
  "map rest_of (occurrences power_core_rx (lower (u ''1500 watts max output'')))
     = [u '' max output'', u '' max output'', u '' max output'', u '' max output'']
   \<and> list_all (\<lambda>s. followed_by_max (rest_of s))
        (occurrences power_core_rx (lower (u ''1500 watts max output'')))
   \<and> dict_get (extract_specs_from_text (u ''1500 watts max output'') 6) ''Power'' = None"
proof -
  have o: "map rest_of (occurrences power_core_rx (lower (u ''1500 watts max output'')))
     = [u '' max output'', u '' max output'', u '' max output'', u '' max output'']"
    by (simp add: eval_defs occurrences_def power_core_rx_def rest_of_def)
  have "list_all followed_by_max
          (map rest_of (occurrences power_core_rx (lower (u ''1500 watts max output''))))"
    unfolding o by (simp add: followed_by_max_def char_defs str_defs)
  then have h: "list_all (\<lambda>s. followed_by_max (rest_of s))
        (occurrences power_core_rx (lower (u ''1500 watts max output'')))"
    by (simp add: list_all_iff)
  from power_followed_by_max[OF h, of 6] o h show ?thesis by simp
qed

subsection \<open>What a match of the Weight pattern captures\<close>

lemma lit_match_result:
  "(pv', t', cs') \<in> set (lit_match ic w (pv, t, cs)) \<Longrightarrow>
     cs' = cs \<and> (\<exists>x. t = x @ t' \<and> list_all2 (chr_eq ic) w x)"
proof (induction w arbitrary: pv t)
  case Nil
  then show ?case by simp
next
  case (Cons a w)
  show ?case
  proof (cases t)
    case Nil
    with Cons.prems show ?thesis by simp
  next
    case (Cons c r)
    with Cons.prems have ok: "chr_eq ic a c"
      and m: "(pv', t', cs') \<in> set (lit_match ic w (Some c, r, cs))"
      by (auto split: if_splits)
    from Cons.IH[OF m] obtain x where "cs' = cs" "r = x @ t'" "list_all2 (chr_eq ic) w x"
      by blast
    with ok Cons show ?thesis
      by (intro conjI exI[of _ "c # x"]) simp_all
  qed
qed

lemma lit_result:
  assumes "(pv', t', cs') \<in> set (ms ic (lit w) (pv, t, cs))"
  shows "cs' = cs \<and> (\<exists>x. t = x @ t' \<and> list_all2 (chr_eq ic) (u w) x)"
  using assms lit_match_result[of pv' t' cs' ic "u w" pv t cs] by (simp add: lit_def)

lemma seq_result:
  "s' \<in> set (ms ic (Seq a b) s) \<longleftrightarrow> (\<exists>s1 \<in> set (ms ic a s). s' \<in> set (ms ic b s1))"
  by auto

lemma alt_result:
  "s' \<in> set (ms ic (Alt a b) s) \<longleftrightarrow> s' \<in> set (ms ic a s) \<or> s' \<in> set (ms ic b s)"
  by simp

lemma opt_result:
  "s' \<in> set (ms ic (Opt a) s) \<longleftrightarrow> s' \<in> set (ms ic a s) \<or> s' = s"
  by auto

lemma grp_result:
  assumes "(pv', t', cs') \<in> set (ms ic (Grp k a) (pv, t, cs))"
  shows "\<exists>cs0. (pv', t', cs0) \<in> set (ms ic a (pv, t, cs))
           \<and> cs' = cs0(k \<mapsto> take (length t - length t') t)"
  using assms by auto

lemma opt_s_result:
  assumes "(pv', t', cs') \<in> set (ms ic (opt_s w) (pv, t, cs))"
  shows "cs' = cs \<and> (\<exists>x. t = x @ t'
           \<and> (list_all2 (chr_eq ic) (u w) x \<or> list_all2 (chr_eq ic) (u w @ u ''s'') x))"
proof -
  from assms obtain q where q: "q \<in> set (ms ic (lit w) (pv, t, cs))"
      "(pv', t', cs') \<in> set (ms ic (Opt (lit ''s'')) q)"
    unfolding opt_s_def seq_result by blast
  obtain pv1 t1 cs1 where e: "q = (pv1, t1, cs1)" by (cases q)
  from lit_result[OF q(1)[unfolded e]] obtain x where
    x: "cs1 = cs" "t = x @ t1" "list_all2 (chr_eq ic) (u w) x" by blast
  from q(2)[unfolded e opt_result]
  have "(pv', t', cs') \<in> set (ms ic (lit ''s'') (pv1, t1, cs1)) \<or> (t' = t1 \<and> cs' = cs1)"
    by auto
  then show ?thesis
  proof
    assume "(pv', t', cs') \<in> set (ms ic (lit ''s'') (pv1, t1, cs1))"
    from lit_result[OF this] obtain y where
      y: "cs' = cs1" "t1 = y @ t'" "list_all2 (chr_eq ic) (u ''s'') y" by blast
    from x(3) y(3) have "list_all2 (chr_eq ic) (u w @ u ''s'') (x @ y)"
      by (rule list_all2_appendI)
    with x y show ?thesis by (intro conjI exI[of _ "x @ y"]) simp_all
  next
    assume "t' = t1 \<and> cs' = cs1"
    with x show ?thesis by (intro conjI exI[of _ x]) simp_all
  qed
qed

lemma runs_result:
  "(pv', t', cs') \<in> set (runs ic p k hi (pv, t, cs)) \<Longrightarrow>
     cs' = cs \<and> (\<exists>x. t = x @ t' \<and> list_all (cls_ok ic p) x)"
proof (induction t arbitrary: pv k)
  case Nil
  then show ?case by simp
next
  case (Cons c r)
  from Cons.prems have "(pv', t', cs') = (pv, c # r, cs)
      \<or> (cls_ok ic p c \<and> (pv', t', cs') \<in> set (runs ic p (Suc k) hi (Some c, r, cs)))"
    by (auto split: if_splits)
  then show ?case
  proof
    assume "(pv', t', cs') = (pv, c # r, cs)"
    then show ?thesis by (intro conjI exI[of _ "[]"]) simp_all
  next
    assume a: "cls_ok ic p c \<and> (pv', t', cs') \<in> set (runs ic p (Suc k) hi (Some c, r, cs))"
    with Cons.IH[of "Suc k" "Some c"] obtain x where
      "cs' = cs" "r = x @ t'" "list_all (cls_ok ic p) x" by blast
    with a show ?thesis by (intro conjI exI[of _ "c # x"]) simp_all
  qed
qed

lemma runs_tail_result:
  assumes "(pv', t', cs') \<in> set (drop 1 (runs ic p k hi (pv, t, cs)))"
  shows "cs' = cs \<and> (\<exists>x. t = x @ t' \<and> x \<noteq> [] \<and> list_all (cls_ok ic p) x)"
proof (cases t)
  case Nil
  with assms show ?thesis by simp
next
  case (Cons c r)
  with assms have a: "cls_ok ic p c"
    and m: "(pv', t', cs') \<in> set (runs ic p (Suc k) hi (Some c, r, cs))"
    by (auto split: if_splits)
  from runs_result[OF m] obtain x where "cs' = cs" "r = x @ t'" "list_all (cls_ok ic p) x"
    by blast
  with a Cons show ?thesis by (intro conjI exI[of _ "c # x"]) simp_all
qed

lemma digits_result:
  assumes "(pv', t', cs') \<in> set (ms ic digits (pv, t, cs))"
  shows "cs' = cs \<and> (\<exists>x. t = x @ t' \<and> x \<noteq> [] \<and> list_all (cls_ok ic (Pos isdigit1)) x)"
  using runs_tail_result[of pv' t' cs' ic "Pos isdigit1" 0 None pv t cs] assms
  by (simp add: digits_def)

lemma ws_result:
  assumes "(pv', t', cs') \<in> set (ms ic ws (pv, t, cs))"
  shows "cs' = cs \<and> (\<exists>x. t = x @ t' \<and> list_all (cls_ok ic (Pos isspace1)) x)"
  using runs_result[of pv' t' cs' ic "Pos isspace1" 0 None pv t cs] assms
  by (simp add: ws_def)

lemma dot_result:
  assumes "(pv', t', cs') \<in> set (ms ic (lit ''.'') (pv, t, cs))"
  shows "cs' = cs \<and> (\<exists>c. t = c # t' \<and> chr_eq ic 46 c)"
proof -
  from lit_result[OF assms] obtain x where
    x: "cs' = cs" "t = x @ t'" "list_all2 (chr_eq ic) (u ''.'') x" by blast
  have "u ''.'' = [46]" by (simp add: u_def)
  with x(3) obtain c where "x = [c]" "chr_eq ic 46 c"
    by (auto simp: list_all2_Cons1)
  with x show ?thesis by simp
qed

lemma num_result:
  assumes "(pv', t', cs') \<in> set (ms ic (num k) (pv, t, cs))"
  shows "\<exists>n. t = n @ t' \<and> cs' = cs(k \<mapsto> n) \<and> n \<noteq> []
           \<and> list_all (\<lambda>c. cls_ok ic (Pos isdigit1) c \<or> chr_eq ic 46 c) n"
proof -
  let ?many = "Many 0 None True (Pos isdigit1)"
  from grp_result[OF assms[unfolded num_def]] obtain cs0 where
    body: "(pv', t', cs0) \<in> set (ms ic (seqs [digits, Opt (lit ''.''), ?many]) (pv, t, cs))"
    and cs': "cs' = cs0(k \<mapsto> take (length t - length t') t)"
    by blast
  from body have "\<exists>s1 \<in> set (ms ic digits (pv, t, cs)).
      \<exists>s2 \<in> set (ms ic (Opt (lit ''.'')) s1). (pv', t', cs0) \<in> set (ms ic ?many s2)"
    by (simp only: seqs.simps seq_result)
  then obtain q1 q2 where q: "q1 \<in> set (ms ic digits (pv, t, cs))"
      "q2 \<in> set (ms ic (Opt (lit ''.'')) q1)" "(pv', t', cs0) \<in> set (ms ic ?many q2)"
    by blast
  obtain pv1 t1 cs1 where e1: "q1 = (pv1, t1, cs1)" by (cases q1)
  obtain pv2 t2 cs2 where e2: "q2 = (pv2, t2, cs2)" by (cases q2)
  from q have
    s1: "(pv1, t1, cs1) \<in> set (ms ic digits (pv, t, cs))"
    and s2: "(pv2, t2, cs2) \<in> set (ms ic (Opt (lit ''.'')) (pv1, t1, cs1))"
    and s3: "(pv', t', cs0) \<in> set (ms ic ?many (pv2, t2, cs2))"
    unfolding e1 e2 by blast+
  from digits_result[OF s1] obtain x1 where
    x1: "cs1 = cs" "t = x1 @ t1" "x1 \<noteq> []" "list_all (cls_ok ic (Pos isdigit1)) x1" by blast
  from s2[unfolded opt_result]
  have "(pv2, t2, cs2) \<in> set (ms ic (lit ''.'') (pv1, t1, cs1)) \<or> (t2 = t1 \<and> cs2 = cs1)"
    by auto
  with dot_result[of pv2 t2 cs2 ic pv1 t1 cs1] obtain x2 where
    x2: "cs2 = cs1" "t1 = x2 @ t2" "list_all (chr_eq ic 46) x2" by fastforce
  from s3 runs_result[of pv' t' cs0 ic "Pos isdigit1" 0 None pv2 t2 cs2] obtain x3 where
    x3: "cs0 = cs2" "t2 = x3 @ t'" "list_all (cls_ok ic (Pos isdigit1)) x3"
    by auto
  have t: "t = (x1 @ x2 @ x3) @ t'" using x1 x2 x3 by simp
  then have "take (length t - length t') t = x1 @ x2 @ x3" by simp
  with cs' x1 x2 x3 t show ?thesis
    by (intro exI[of _ "x1 @ x2 @ x3"]) (auto simp: list_all_iff)
qed

lemma weight_units_result:
  assumes "(pv', t', cs') \<in> set (ms ic weight_units_rx (pv, t, cs))"
  shows "cs' = cs \<and> (\<exists>x. t = x @ t' \<and> (\<exists>w \<in> set weight_units. list_all2 (chr_eq ic) w x))"
proof -
  have words: "u ''lb'' \<in> set weight_units" "u ''lb'' @ u ''s'' \<in> set weight_units"
      "u ''pound'' \<in> set weight_units" "u ''pound'' @ u ''s'' \<in> set weight_units"
      "u ''kg'' \<in> set weight_units"
      "u ''kilogram'' \<in> set weight_units" "u ''kilogram'' @ u ''s'' \<in> set weight_units"
    by (simp_all add: weight_units_def u_def)
  from assms have "(pv', t', cs') \<in> set (ms ic (opt_s ''lb'') (pv, t, cs))
    \<or> (pv', t', cs') \<in> set (ms ic (opt_s ''pound'') (pv, t, cs))
    \<or> (pv', t', cs') \<in> set (ms ic (lit ''kg'') (pv, t, cs))
    \<or> (pv', t', cs') \<in> set (ms ic (opt_s ''kilogram'') (pv, t, cs))"
    by (simp only: weight_units_rx_def alts.simps alt_result)
  then consider
      "(pv', t', cs') \<in> set (ms ic (opt_s ''lb'') (pv, t, cs))"
    | "(pv', t', cs') \<in> set (ms ic (opt_s ''pound'') (pv, t, cs))"
    | "(pv', t', cs') \<in> set (ms ic (lit ''kg'') (pv, t, cs))"
    | "(pv', t', cs') \<in> set (ms ic (opt_s ''kilogram'') (pv, t, cs))"
    by blast
  then show ?thesis
  proof cases
    case 1
    from opt_s_result[OF 1] words(1,2) show ?thesis by blast
  next
    case 2
    from opt_s_result[OF 2] words(3,4) show ?thesis by blast
  next
    case 3
    from lit_result[OF 3] words(5) show ?thesis by blast
  next
    case 4
    from opt_s_result[OF 4] words(6,7) show ?thesis by blast
  qed
qed

lemma weight_rx_eq: "weight_rx = seqs [num 1, ws, Grp 2 weight_units_rx, WordB]"
  by (simp add: weight_rx_def weight_units_rx_def)

lemma weight_rx_result:
  assumes "(pv', t', cs') \<in> set (ms True weight_rx (pv, t, cs))"
  shows "\<exists>n sp un. t = n @ sp @ un @ t' \<and> cs' 1 = Some n \<and> cs' 2 = Some un
           \<and> n \<noteq> [] \<and> list_all number_char n \<and> list_all space_char sp
           \<and> (\<exists>w \<in> set weight_units. matches_word w un)"
proof -
  from assms have "\<exists>s1 \<in> set (ms True (num 1) (pv, t, cs)). \<exists>s2 \<in> set (ms True ws s1).
      \<exists>s3 \<in> set (ms True (Grp 2 weight_units_rx) s2). (pv', t', cs') \<in> set (ms True WordB s3)"
    by (simp only: weight_rx_eq seqs.simps seq_result)
  then obtain q1 q2 q3 where q: "q1 \<in> set (ms True (num 1) (pv, t, cs))"
      "q2 \<in> set (ms True ws q1)"
      "q3 \<in> set (ms True (Grp 2 weight_units_rx) q2)" "(pv', t', cs') \<in> set (ms True WordB q3)"
    by blast
  obtain pv1 t1 cs1 where e1: "q1 = (pv1, t1, cs1)" by (cases q1)
  obtain pv2 t2 cs2 where e2: "q2 = (pv2, t2, cs2)" by (cases q2)
  obtain pv3 t3 cs3 where e3: "q3 = (pv3, t3, cs3)" by (cases q3)
  from q have
    s1: "(pv1, t1, cs1) \<in> set (ms True (num 1) (pv, t, cs))"
    and s2: "(pv2, t2, cs2) \<in> set (ms True ws (pv1, t1, cs1))"
    and s3: "(pv3, t3, cs3) \<in> set (ms True (Grp 2 weight_units_rx) (pv2, t2, cs2))"
    and s4: "(pv', t', cs') \<in> set (ms True WordB (pv3, t3, cs3))"
    unfolding e1 e2 e3 by blast+
  from num_result[OF s1] obtain n where
    n: "t = n @ t1" "cs1 = cs(1 \<mapsto> n)" "n \<noteq> []" "list_all number_char n"
    unfolding number_char_def by blast
  from ws_result[OF s2] obtain sp where sp: "cs2 = cs1" "t1 = sp @ t2" "list_all space_char sp"
    unfolding space_char_def by blast
  from grp_result[OF s3] obtain cs0 where
    g: "(pv3, t3, cs0) \<in> set (ms True weight_units_rx (pv2, t2, cs2))"
       "cs3 = cs0(2 \<mapsto> take (length t2 - length t3) t2)"
    by blast
  from weight_units_result[OF g(1)] obtain un where
    un: "cs0 = cs2" "t2 = un @ t3" "\<exists>w \<in> set weight_units. matches_word w un"
    unfolding matches_word_def by blast
  from s4 have e: "t' = t3" "cs' = cs3" by (auto split: if_splits)
  from un(2) have "take (length t2 - length t3) t2 = un" by simp
  with g(2) un n sp e show ?thesis
    by (intro exI[of _ n] exI[of _ sp] exI[of _ un]) simp
qed

lemma search_from_Some:
  "search_from ic r pv t = Some m \<Longrightarrow>
     \<exists>p \<in> set (positions pv t). match_here ic r (fst p) (snd p) = Some m"
  by (induction t arbitrary: pv) (auto split: option.splits)

lemma positions_suffix: "p \<in> set (positions pv t) \<Longrightarrow> \<exists>a. t = a @ snd p"
proof (induction t arbitrary: pv)
  case Nil
  then show ?case by simp
next
  case (Cons c t)
  from Cons.prems have "p = (pv, c # t) \<or> p \<in> set (positions (Some c) t)" by simp
  then show ?case
  proof
    assume "p = (pv, c # t)"
    then show ?thesis by simp
  next
    assume "p \<in> set (positions (Some c) t)"
    from Cons.IH[OF this] obtain a where "t = a @ snd p" by blast
    then show ?thesis by (intro exI[of _ "c # a"]) simp
  qed
qed

lemma match_here_Some:
  assumes "match_here ic r pv t = Some m"
  shows "\<exists>pv' t' cs'. (pv', t', cs') \<in> set (ms ic r (pv, t, \<lambda>_. None))
           \<and> m_caps m = cs' \<and> m_ngroups m = ngroups r"
proof (cases "ms ic r (pv, t, \<lambda>_. None)")
  case Nil
  with assms show ?thesis by (simp add: match_here_def)
next
  case (Cons s ss)
  obtain pv' t' cs' where s: "s = (pv', t', cs')" by (cases s)
  with Cons assms have "m_caps m = cs'" "m_ngroups m = ngroups r"
    by (auto simp: match_here_def)
  with Cons s show ?thesis by auto
qed

lemma ngroups_weight_rx: "ngroups weight_rx = 2"
  by (simp add: weight_rx_def num_def digits_def ws_def opt_s_def lit_def)

lemma weight_rules:
  "(''Weight'', rules) \<in> set patterns \<Longrightarrow> rules = [(weight_rx, format_pair)]"
  by (simp add: patterns_def)

lemma try_single_rule:
  assumes "try_rules [(pattern, formatter)] t = Some v"
  shows "\<exists>m. re_search pattern t True = Some m \<and> formatter m = Inr v"
proof (cases "re_search pattern t True")
  case None
  with assms show ?thesis by simp
next
  case (Some m)
  show ?thesis
  proof (cases "formatter m")
    case (Inl e)
    with Some assms show ?thesis by (simp add: bind_e_def)
  next
    case (Inr w)
    obtain b where b: "is_valid_value w 100 = Inr b"
      using is_valid_value_total by blast
    from assms Some Inr b have "w = v"
      by (cases "w = []"; cases b) (auto simp: bind_e_def)
    with Some Inr show ?thesis by simp
  qed
qed

text \<open>
  Claim C7, amended. The Weight value is a number, one space and a unit, where the
  number, white space and the unit stand one after the other in the lower-cased text:
  the unit is one of \<open>lb\<close>, \<open>lbs\<close>, \<open>pound\<close>, \<open>pounds\<close>, \<open>kg\<close>, \<open>kilogram\<close>
  and \<open>kilograms\<close> in lower case, whatever the case of the source.
\<close>
text \<open>
  Claim C7, amended. The Weight value is a number, one space and a unit, where the
  number, white space and the unit stand one after the other in the lower-cased text:
  the unit is what the lower-cased text has where one of the words \<open>lb\<close>, \<open>lbs\<close>,
  \<open>pound\<close>, \<open>pounds\<close>, \<open>kg\<close>, \<open>kilogram\<close>, \<open>kilograms\<close> matches without regard
  to case, and not what the source has there.
\<close>
theorem weight_unit_lower_case:
  assumes "dict_get (extract_specs_from_text text max_specs) ''Weight'' = Some v"
  shows "\<exists>a n sp un b. lower text = a @ n @ sp @ un @ b \<and> v = n @ u '' '' @ un
           \<and> n \<noteq> [] \<and> list_all number_char n \<and> list_all space_char sp
           \<and> (\<exists>w \<in> set weight_units. matches_word w un)"
proof -
  from extract_loop_get_Some[OF assms[unfolded extract_specs_from_text_def]]
  obtain rules where r: "(''Weight'', rules) \<in> set patterns"
      "try_rules rules (lower text) = Some v"
    by (auto simp: dict_get_def)
  from r(2) weight_rules[OF r(1)]
  have "try_rules [(weight_rx, format_pair)] (lower text) = Some v" by simp
  from try_single_rule[OF this] obtain m where
    m: "re_search weight_rx (lower text) True = Some m" "format_pair m = Inr v"
    by blast
  from search_from_Some[OF m(1)[unfolded re_search_def]] obtain p where
    p: "p \<in> set (positions None (lower text))"
       "match_here True weight_rx (fst p) (snd p) = Some m"
    by blast
  from positions_suffix[OF p(1)] obtain a where a: "lower text = a @ snd p" by blast
  from match_here_Some[OF p(2)] obtain pv' t' cs' where
    s: "(pv', t', cs') \<in> set (ms True weight_rx (fst p, snd p, \<lambda>_. None))"
       "m_caps m = cs'" "m_ngroups m = 2"
    by (auto simp: ngroups_weight_rx)
  from weight_rx_result[OF s(1)] obtain n sp un where
    w: "snd p = n @ sp @ un @ t'" "cs' 1 = Some n" "cs' 2 = Some un" "n \<noteq> []"
       "list_all number_char n" "list_all space_char sp"
       "\<exists>w \<in> set weight_units. matches_word w un"
    by blast
  from m(2) s(2,3) w(2,3) have "v = n @ u '' '' @ un"
    by (simp add: format_pair_def group_def bind_e_def fstr_def)
  with a w show ?thesis
    by (intro exI[of _ a] exI[of _ n] exI[of _ sp] exI[of _ un] exI[of _ t']) simp
qed

theorem weight_unit_lower_case_witness:
  "dict_get (extract_specs_from_text (u ''Product weighs 4.5 LBS total'') 6) ''Weight''
     = Some (u ''4.5 lbs'')
   \<and> lower (u ''Product weighs 4.5 LBS total'')
       = u ''product weighs '' @ u ''4.5'' @ u '' '' @ u ''lbs'' @ u '' total''
   \<and> u ''lbs'' \<in> set weight_units \<and> matches_word (u ''lbs'') (u ''lbs'')
   \<and> (\<exists>a n sp un b. lower (u ''Product weighs 4.5 LBS total'') = a @ n @ sp @ un @ b
         \<and> u ''4.5 lbs'' = n @ u '' '' @ un \<and> n \<noteq> [] \<and> list_all number_char n
         \<and> list_all space_char sp \<and> (\<exists>w \<in> set weight_units. matches_word w un))"
proof -
  have h: "dict_get (extract_specs_from_text (u ''Product weighs 4.5 LBS total'') 6) ''Weight''
     = Some (u ''4.5 lbs'')"
    by (simp add: eval_defs)
  have l: "lower (u ''Product weighs 4.5 LBS total'')
       = u ''product weighs '' @ u ''4.5'' @ u '' '' @ u ''lbs'' @ u '' total''"
    by (simp add: char_defs str_defs)
  have w: "u ''lbs'' \<in> set weight_units" "matches_word (u ''lbs'') (u ''lbs'')"
    by (simp_all add: weight_units_def matches_word_def u_def chr_eq_def)
  from weight_unit_lower_case[OF h] h l w show ?thesis by blast
qed

end
